theory Spec2Isabelle
  imports Main "HOL-Library.DAList"
begin

section \<open>The CSP solver of Solver.py\<close>

text \<open>
  The class \<open>Solver\<close> keeps three containers and two counters. A Python \<open>dict\<close> keeps its
  keys in insertion order and never holds a key twice, and the solver iterates over its
  dictionaries (\<open>items()\<close>, the comprehension of \<open>get_all_arcs\<close>), so a dictionary is a
  distinct association list (\<open>DAList\<close>): \<open>d[k] = v\<close> is \<open>DAList.update\<close>, which keeps the
  position of a key that is present and appends a new key at the end; \<open>d[k]\<close> is
  \<open>DAList.lookup\<close>, with \<open>None\<close> for Python's \<open>KeyError\<close>.
  Variable names are strings; the values of the domains are left polymorphic (the code
  only compares them for equality). The counters are Python's unbounded integers.
\<close>

datatype error = KeyError | ValueError

type_synonym var = string

type_synonym 'v assignment = "(var, 'v list) DAList.alist"

type_synonym arc = "var \<times> var"

record 'v solver =
  variables :: "var list"
  domains :: "(var, 'v list) DAList.alist"
  constraints :: "(var, (var, ('v \<times> 'v) list) DAList.alist) DAList.alist"
  numCalls :: int
  numFailures :: int

text \<open>\<open>Solver.__init__\<close>\<close>

definition Solver_init :: "'v solver" where
  "Solver_init =
     \<lparr>variables = [], domains = DAList.empty, constraints = DAList.empty,
      numCalls = 0, numFailures = 0\<rparr>"

text \<open>\<open>add_variable\<close>: appends the name, stores a copy of the domain, resets the row of
  the constraint table. Nothing in it can raise.\<close>

definition add_variable :: "var \<Rightarrow> 'v list \<Rightarrow> 'v solver \<Rightarrow> 'v solver" where
  "add_variable name domain s =
     s\<lparr>variables := variables s @ [name],
       domains := DAList.update name domain (domains s),
       constraints := DAList.update name DAList.empty (constraints s)\<rparr>"

text \<open>\<open>get_all_possible_pairs\<close> is \<open>itertools.product(a, b)\<close>: the first component varies
  slowest.\<close>

definition get_all_possible_pairs :: "'a list \<Rightarrow> 'b list \<Rightarrow> ('a \<times> 'b) list" where
  "get_all_possible_pairs a b = List.product a b"

text \<open>\<open>get_all_arcs\<close>: \<open>[(i, j) for i in self.constraints for j in self.constraints[i]]\<close>.\<close>

definition get_all_arcs :: "'v solver \<Rightarrow> arc list" where
  "get_all_arcs s =
     concat (map (\<lambda>(i, c_i). map (\<lambda>(j, ps). (i, j)) (DAList.impl_of c_i))
                 (DAList.impl_of (constraints s)))"

text \<open>\<open>get_all_neighboring_arcs\<close>: \<open>[(i, var) for i in self.constraints[var]]\<close>: it runs
  over the keys of the row of \<open>var\<close>.\<close>

definition get_all_neighboring_arcs :: "'v solver \<Rightarrow> var \<Rightarrow> error + arc list" where
  "get_all_neighboring_arcs s var =
     (case DAList.lookup (constraints s) var of
        None \<Rightarrow> Inl KeyError
      | Some c_var \<Rightarrow> Inr (map (\<lambda>(i, ps). (i, var)) (DAList.impl_of c_var)))"

text \<open>\<open>add_constraint_one_way\<close>. The two statements of the source are kept apart: the
  first one stores the cross product when the entry is missing, the second one filters
  whatever is stored. Every lookup that can raise \<open>KeyError\<close> precedes the first store,
  so a raising call leaves the solver as it was.\<close>

definition set_constraint ::
    "var \<Rightarrow> var \<Rightarrow> ('v \<times> 'v) list \<Rightarrow> 'v solver \<Rightarrow> error + 'v solver" where
  "set_constraint i j ps s =
     (case DAList.lookup (constraints s) i of
        None \<Rightarrow> Inl KeyError
      | Some c_i \<Rightarrow>
          Inr (s\<lparr>constraints := DAList.update i (DAList.update j ps c_i) (constraints s)\<rparr>))"

definition get_constraint :: "'v solver \<Rightarrow> var \<Rightarrow> var \<Rightarrow> error + ('v \<times> 'v) list" where
  "get_constraint s i j =
     (case DAList.lookup (constraints s) i of
        None \<Rightarrow> Inl KeyError
      | Some c_i \<Rightarrow>
          (case DAList.lookup c_i j of None \<Rightarrow> Inl KeyError | Some ps \<Rightarrow> Inr ps))"

definition add_constraint_one_way ::
    "var \<Rightarrow> var \<Rightarrow> ('v \<Rightarrow> 'v \<Rightarrow> bool) \<Rightarrow> 'v solver \<Rightarrow> error + 'v solver" where
  "add_constraint_one_way i j filter_function s =
     (case DAList.lookup (constraints s) i of
        None \<Rightarrow> Inl KeyError
      | Some c_i \<Rightarrow>
          (case (if DAList.lookup c_i j = None then
                   (case DAList.lookup (domains s) i of
                      None \<Rightarrow> Inl KeyError
                    | Some d_i \<Rightarrow>
                        (case DAList.lookup (domains s) j of
                           None \<Rightarrow> Inl KeyError
                         | Some d_j \<Rightarrow> set_constraint i j (get_all_possible_pairs d_i d_j) s))
                 else Inr s) of
             Inl e \<Rightarrow> Inl e
           | Inr s1 \<Rightarrow>
               (case get_constraint s1 i j of
                  Inl e \<Rightarrow> Inl e
                | Inr ps \<Rightarrow>
                    set_constraint i j
                      (filter (\<lambda>value_pair. filter_function (fst value_pair) (snd value_pair)) ps)
                      s1)))"

text \<open>\<open>add_all_different_constraint\<close>: the loop over \<open>product(var_list, var_list)\<close>; a call
  that raises ends the loop.\<close>

fun add_all_different_loop :: "arc list \<Rightarrow> 'v solver \<Rightarrow> error + 'v solver" where
  "add_all_different_loop [] s = Inr s"
| "add_all_different_loop ((i, j) # rest) s =
     (if i \<noteq> j then
        (case add_constraint_one_way i j (\<lambda>x y. x \<noteq> y) s of
           Inl e \<Rightarrow> Inl e
         | Inr s' \<Rightarrow> add_all_different_loop rest s')
      else add_all_different_loop rest s)"

definition add_all_different_constraint :: "var list \<Rightarrow> 'v solver \<Rightarrow> error + 'v solver" where
  "add_all_different_constraint var_list s =
     add_all_different_loop (get_all_possible_pairs var_list var_list) s"

subsection \<open>Revise and AC-3\<close>

text \<open>The inner loop of \<open>revised\<close>: \<open>satisfies\<close> starts as \<open>False\<close> and is set by every
  \<open>y\<close> of \<open>Dj\<close> whose pair with \<open>x\<close> is stored.\<close>

definition satisfies :: "('v \<times> 'v) list \<Rightarrow> 'v list \<Rightarrow> 'v \<Rightarrow> bool" where
  "satisfies constraints_Xi_Xj Dj x =
     fold (\<lambda>y sat. if (x, y) \<in> set constraints_Xi_Xj then True else sat) Dj False"

text \<open>\<open>for x in notSatisfyingValues: Di.remove(x)\<close>: \<open>list.remove\<close> deletes the first
  occurrence and raises \<open>ValueError\<close> when there is none.\<close>

fun remove_all :: "'v list \<Rightarrow> 'v list \<Rightarrow> error + 'v list" where
  "remove_all [] Di = Inr Di"
| "remove_all (x # xs) Di =
     (if x \<in> set Di then remove_all xs (remove1 x Di) else Inl ValueError)"

definition revised ::
    "'v solver \<Rightarrow> 'v assignment \<Rightarrow> var \<Rightarrow> var \<Rightarrow> error + (bool \<times> 'v assignment)" where
  "revised s assignment Xi Xj =
     (case get_constraint s Xi Xj of
        Inl e \<Rightarrow> Inl e
      | Inr constraints_Xi_Xj \<Rightarrow>
          (case DAList.lookup assignment Xi of
             None \<Rightarrow> Inl KeyError
           | Some Di \<Rightarrow>
               (case DAList.lookup assignment Xj of
                  None \<Rightarrow> Inl KeyError
                | Some Dj \<Rightarrow>
                    (let notSatisfyingValues =
                           filter (\<lambda>x. \<not> satisfies constraints_Xi_Xj Dj x) Di
                     in case remove_all notSatisfyingValues Di of
                          Inl e \<Rightarrow> Inl e
                        | Inr Di' \<Rightarrow>
                            Inr (notSatisfyingValues \<noteq> [],
                                 DAList.update Xi Di' assignment)))))"

text \<open>\<open>if Xj not in neighbor_arc: queue.append(neighbor_arc)\<close>: the test is membership
  in the tuple, so an arc is appended when \<open>Xj\<close> is neither of its two components.\<close>

abbreviation enqueue :: "var \<Rightarrow> arc list \<Rightarrow> arc list" where
  "enqueue Xj Xi_neighbors \<equiv>
     filter (\<lambda>neighbor_arc. Xj \<noteq> fst neighbor_arc \<and> Xj \<noteq> snd neighbor_arc) Xi_neighbors"

text \<open>The size of an assignment is the number of values left in all its domains. A
  revision that reports a change makes it smaller, which is why the loop of AC-3 ends.\<close>

definition dom_size :: "'v assignment \<Rightarrow> nat" where
  "dom_size a = sum_list (map (\<lambda>(k, d). length d) (DAList.impl_of a))"

lemma satisfies_fold:
  "fold (\<lambda>y sat. if (x, y) \<in> set c then True else sat) Dj b \<longleftrightarrow>
     b \<or> (\<exists>y \<in> set Dj. (x, y) \<in> set c)"
  by (induction Dj arbitrary: b) auto

lemma satisfies_iff: "satisfies c Dj x \<longleftrightarrow> (\<exists>y \<in> set Dj. (x, y) \<in> set c)"
  by (simp add: satisfies_def satisfies_fold)

lemma remove_all_filter_gen:
  "\<forall>p \<in> set pre. \<not> P p \<Longrightarrow>
   remove_all (filter P xs) (pre @ xs) = Inr (pre @ filter (\<lambda>x. \<not> P x) xs)"
proof (induction xs arbitrary: pre)
  case Nil
  then show ?case by simp
next
  case (Cons x xs)
  show ?case
  proof (cases "P x")
    case True
    with Cons.prems have "x \<notin> set pre" by auto
    then have "remove1 x (pre @ x # xs) = pre @ xs" by (simp add: remove1_append)
    with True Cons.IH[OF Cons.prems] show ?thesis by simp
  next
    case False
    with Cons.prems have "\<forall>p \<in> set (pre @ [x]). \<not> P p" by auto
    from Cons.IH[OF this] False show ?thesis by simp
  qed
qed

text \<open>The values to remove are taken from \<open>Di\<close> itself, so \<open>Di.remove(x)\<close> never raises
  and what is left of \<open>Di\<close> is the values that passed the test, in their order.\<close>

lemma remove_all_filter: "remove_all (filter P xs) xs = Inr (filter (\<lambda>x. \<not> P x) xs)"
  using remove_all_filter_gen[of "[]" P xs] by simp

lemma sum_update:
  "map_of al k = Some d \<Longrightarrow>
   sum_list (map (\<lambda>(k, d). length d) (AList.update k d' al)) + length d
     = sum_list (map (\<lambda>(k, d). length d) al) + length d'"
  by (induction al) (auto split: if_splits)

lemma dom_size_update:
  "DAList.lookup a k = Some d \<Longrightarrow>
   dom_size (DAList.update k d' a) + length d = dom_size a + length d'"
  unfolding dom_size_def by (simp add: DAList.lookup.rep_eq DAList.update.rep_eq sum_update)

lemma revised_Inr:
  assumes "revised s a Xi Xj = Inr (r, a')"
  obtains c Di Dj where
    "get_constraint s Xi Xj = Inr c" "DAList.lookup a Xi = Some Di"
    "DAList.lookup a Xj = Some Dj"
    "a' = DAList.update Xi (filter (satisfies c Dj) Di) a"
    "r = (\<exists>x \<in> set Di. \<not> satisfies c Dj x)"
  using assms
  by (auto simp: revised_def Let_def remove_all_filter filter_empty_conv
           split: sum.splits option.splits)

lemma revised_dom_size:
  assumes "revised s a Xi Xj = Inr (r, a')"
  shows "if r then dom_size a' < dom_size a else dom_size a' = dom_size a"
proof -
  from assms obtain c Di Dj where
    l: "DAList.lookup a Xi = Some Di" and
    a': "a' = DAList.update Xi (filter (satisfies c Dj) Di) a" and
    r: "r = (\<exists>x \<in> set Di. \<not> satisfies c Dj x)"
    by (rule revised_Inr)
  have e: "dom_size a' + length Di = dom_size a + length (filter (satisfies c Dj) Di)"
    unfolding a' by (rule dom_size_update[OF l])
  show ?thesis
  proof (cases r)
    case True
    then have "length (filter (satisfies c Dj) Di) < length Di"
      using r by (auto intro: length_filter_less)
    with e True show ?thesis by simp
  next
    case False
    then have "filter (satisfies c Dj) Di = Di" using r by (auto simp: filter_id_conv)
    with e False show ?thesis by simp
  qed
qed

text \<open>\<open>ac3_inference\<close>. The queue is the Python list: \<open>queue.pop()\<close> takes its last
  element, \<open>queue.append\<close> adds at the end. The function returns the flag together with
  the assignment, which the source mutates in place (also when it returns \<open>False\<close>).\<close>

function ac3_inference ::
    "'v solver \<Rightarrow> 'v assignment \<Rightarrow> arc list \<Rightarrow> error + (bool \<times> 'v assignment)" where
  "ac3_inference s assignment queue =
     (if length queue > 0 then
        (case last queue of (Xi, Xj) \<Rightarrow>
          (case revised s assignment Xi Xj of
             Inl e \<Rightarrow> Inl e
           | Inr (was_revised, assignment') \<Rightarrow>
               if was_revised then
                 (case DAList.lookup assignment' Xi of
                    None \<Rightarrow> Inl KeyError
                  | Some Di \<Rightarrow>
                      if length Di = 0 then Inr (False, assignment')
                      else
                        (case get_all_neighboring_arcs s Xi of
                           Inl e \<Rightarrow> Inl e
                         | Inr Xi_neighbors \<Rightarrow>
                             ac3_inference s assignment'
                               (butlast queue @ enqueue Xj Xi_neighbors)))
               else ac3_inference s assignment' (butlast queue)))
      else Inr (True, assignment))"
  by pat_completeness auto
termination
proof (relation "measures [\<lambda>(s, a, q). dom_size a, \<lambda>(s, a, q). length q]", goal_cases)
  case 1
  show ?case by simp
next
  case 2
  then show ?case by (auto dest: revised_dom_size)
next
  case 3
  then show ?case by (auto dest: revised_dom_size)
qed

declare ac3_inference.simps [simp del]

subsection \<open>Backtracking search\<close>

definition isConsistent :: "var \<Rightarrow> 'v \<Rightarrow> 'v assignment \<Rightarrow> bool" where
  "isConsistent Xi Di assignment = True"

text \<open>\<open>hasCompletedThe\<close> and \<open>selectUnassignedVariableFrom\<close> run over
  \<open>assignment.items()\<close> and return at the first item that decides.\<close>

fun hasCompleted_items :: "(var \<times> 'v list) list \<Rightarrow> bool" where
  "hasCompleted_items [] = True"
| "hasCompleted_items ((Xi, Di) # rest) =
     (if length Di \<noteq> 1 then False else hasCompleted_items rest)"

definition hasCompletedThe :: "'v assignment \<Rightarrow> bool" where
  "hasCompletedThe assignment = hasCompleted_items (DAList.impl_of assignment)"

fun select_items :: "(var \<times> 'v list) list \<Rightarrow> var option" where
  "select_items [] = None"
| "select_items ((Xi, Domain_Xi) # rest) =
     (if length Domain_Xi > 1 then Some Xi else select_items rest)"

definition selectUnassignedVariableFrom :: "'v assignment \<Rightarrow> var option" where
  "selectUnassignedVariableFrom assignment = select_items (DAList.impl_of assignment)"

text \<open>The number of undecided variables of an assignment, and the same number with one
  variable left out: the two measures of the recursion of \<open>backtrack\<close>.\<close>

definition undecided :: "'v assignment \<Rightarrow> nat" where
  "undecided a = length (filter (\<lambda>(k, d). length d > 1) (DAList.impl_of a))"

definition undecided_besides :: "var \<Rightarrow> 'v assignment \<Rightarrow> nat" where
  "undecided_besides Xi a =
     length (filter (\<lambda>(k, d). k \<noteq> Xi \<and> length d > 1) (DAList.impl_of a))"

lemma undecided_update_le_raw:
  "map_of al k = Some d \<Longrightarrow> length d' \<le> length d \<Longrightarrow>
   length (filter (\<lambda>(k, d). length d > 1) (AList.update k d' al))
     \<le> length (filter (\<lambda>(k, d). length d > 1) al)"
  by (induction al) (auto split: if_splits)

lemma undecided_update_le:
  "DAList.lookup a k = Some d \<Longrightarrow> length d' \<le> length d \<Longrightarrow>
   undecided (DAList.update k d' a) \<le> undecided a"
  using undecided_update_le_raw[of "DAList.impl_of a" k d d']
  by (simp add: undecided_def DAList.lookup.rep_eq DAList.update.rep_eq)

lemma undecided_pin_raw:
  "distinct (map fst al) \<Longrightarrow>
   length (filter (\<lambda>(k, d). length d > 1) (AList.update Xi [v] al))
     = length (filter (\<lambda>(k, d). k \<noteq> Xi \<and> length d > 1) al)"
proof (induction al)
  case Nil
  then show ?case by simp
next
  case (Cons p al)
  obtain k d where p: "p = (k, d)" by (cases p)
  show ?case
  proof (cases "k = Xi")
    case True
    with Cons.prems p have "Xi \<notin> fst ` set al" by auto
    then have "filter (\<lambda>(k, d). k \<noteq> Xi \<and> length d > 1) al
                 = filter (\<lambda>(k, d). length d > 1) al"
      by (intro filter_cong) (auto simp: image_iff)
    with True p show ?thesis by simp
  next
    case False
    with Cons p show ?thesis by simp
  qed
qed

lemma undecided_pin: "undecided (DAList.update Xi [v] a) = undecided_besides Xi a"
  using undecided_pin_raw[of "DAList.impl_of a" Xi v]
  by (simp add: undecided_def undecided_besides_def DAList.update.rep_eq)

lemma select_items_Some:
  "select_items al = Some Xi \<Longrightarrow> \<exists>d. (Xi, d) \<in> set al \<and> length d > 1"
  by (induction al rule: select_items.induct) (auto split: if_splits)

lemma undecided_besides_less_raw:
  "(Xi, d) \<in> set al \<Longrightarrow> length d > 1 \<Longrightarrow>
   length (filter (\<lambda>(k, d). k \<noteq> Xi \<and> length d > 1) al)
     < length (filter (\<lambda>(k, d). length d > 1) al)"
proof (induction al)
  case Nil
  then show ?case by simp
next
  case (Cons p al)
  have le: "length (filter (\<lambda>(k, d). k \<noteq> Xi \<and> length d > 1) al)
              \<le> length (filter (\<lambda>(k, d). length d > 1) al)"
    by (induction al) auto
  show ?case
  proof (cases "p = (Xi, d)")
    case True
    with Cons.prems le show ?thesis by (simp add: less_Suc_eq_le)
  next
    case False
    with Cons show ?thesis by (cases p) auto
  qed
qed

lemma select_undecided_less:
  "selectUnassignedVariableFrom a = Some Xi \<Longrightarrow> undecided_besides Xi a < undecided a"
proof -
  assume "selectUnassignedVariableFrom a = Some Xi"
  then obtain d where "(Xi, d) \<in> set (DAList.impl_of a)" "length d > 1"
    unfolding selectUnassignedVariableFrom_def by (blast dest: select_items_Some)
  from undecided_besides_less_raw[OF this] show ?thesis
    by (simp add: undecided_def undecided_besides_def)
qed

lemma revised_undecided:
  assumes "revised s a Xi Xj = Inr (r, a')"
  shows "undecided a' \<le> undecided a"
proof -
  from assms obtain c Di Dj where
    l: "DAList.lookup a Xi = Some Di" and
    a': "a' = DAList.update Xi (filter (satisfies c Dj) Di) a"
    by (rule revised_Inr)
  show ?thesis unfolding a' by (rule undecided_update_le[OF l]) simp
qed

text \<open>The loop of AC-3, one iteration at a time, and the induction it gives.\<close>

lemma ac3_Nil: "ac3_inference s a [] = Inr (True, a)"
  by (subst ac3_inference.simps) simp

lemma ac3_snoc:
  "ac3_inference s a (q @ [(Xi, Xj)]) =
     (case revised s a Xi Xj of
        Inl e \<Rightarrow> Inl e
      | Inr (r, a1) \<Rightarrow>
          if r then
            (case DAList.lookup a1 Xi of
               None \<Rightarrow> Inl KeyError
             | Some Di \<Rightarrow>
                 if Di = [] then Inr (False, a1)
                 else (case get_all_neighboring_arcs s Xi of
                         Inl e \<Rightarrow> Inl e
                       | Inr nb \<Rightarrow> ac3_inference s a1 (q @ enqueue Xj nb)))
          else ac3_inference s a1 q)"
  by (subst ac3_inference.simps) (simp split: sum.splits prod.splits option.splits)

lemma ac3_induct [case_names Nil snoc]:
  assumes Nil: "\<And>a. P a []"
    and snoc: "\<And>a q Xi Xj.
      (\<And>a1. revised s a Xi Xj = Inr (False, a1) \<Longrightarrow> P a1 q) \<Longrightarrow>
      (\<And>a1 Di nb. revised s a Xi Xj = Inr (True, a1) \<Longrightarrow> DAList.lookup a1 Xi = Some Di \<Longrightarrow>
          Di \<noteq> [] \<Longrightarrow> get_all_neighboring_arcs s Xi = Inr nb \<Longrightarrow>
          P a1 (q @ enqueue Xj nb)) \<Longrightarrow>
      P a (q @ [(Xi, Xj)])"
  shows "P a q"
proof -
  have "t = s \<Longrightarrow> P a q" for t
  proof (induction t a q rule: ac3_inference.induct)
    case (1 t a q)
    note ts = \<open>t = s\<close>
    show ?case
    proof (cases q rule: rev_cases)
      case Nil
      show ?thesis unfolding Nil by (rule assms(1))
    next
      case (snoc q' x)
      obtain Xi Xj where x: "x = (Xi, Xj)" by (cases x)
      have pos: "0 < length q" and l: "(Xi, Xj) = last q" and b: "butlast q = q'"
        by (simp_all add: snoc x)
      show ?thesis unfolding snoc x
      proof (rule assms(2))
        fix a1 assume r: "revised s a Xi Xj = Inr (False, a1)"
        have "P a1 (butlast q)"
          by (rule "1.IH"(2)[OF pos l r[folded ts] refl _ ts]) simp
        then show "P a1 q'" by (simp only: b)
      next
        fix a1 Di nb
        assume r: "revised s a Xi Xj = Inr (True, a1)" and d: "DAList.lookup a1 Xi = Some Di"
          and ne: "Di \<noteq> []" and nb: "get_all_neighboring_arcs s Xi = Inr nb"
        have "P a1 (butlast q @ enqueue Xj nb)"
          by (rule "1.IH"(1)[OF pos l r[folded ts] refl _ d _ nb[folded ts] ts])
             (simp_all add: ne)
        then show "P a1 (q' @ enqueue Xj nb)" by (simp only: b)
      qed
    qed
  qed
  then show ?thesis by simp
qed

text \<open>A relation between assignments that every revision respects holds between the
  argument and the result of AC-3.\<close>

lemma ac3_rel:
  assumes run: "ac3_inference s a q = Inr (ok, a')"
    and refl: "\<And>a. R a a"
    and trans: "\<And>a b c. R a b \<Longrightarrow> R b c \<Longrightarrow> R a c"
    and step: "\<And>a Xi Xj r a1. revised s a Xi Xj = Inr (r, a1) \<Longrightarrow> R a a1"
  shows "R a a'"
  using run
proof (induction a q rule: ac3_induct[where s = s])
  case (Nil a)
  then show ?case by (simp add: ac3_Nil refl)
next
  case (snoc a q Xi Xj)
  from snoc.prems obtain r a1 where rv: "revised s a Xi Xj = Inr (r, a1)"
    by (auto simp: ac3_snoc split: sum.splits)
  have R1: "R a a1" by (rule step[OF rv])
  show ?case
  proof (cases r)
    case False
    with snoc.prems rv have "ac3_inference s a1 q = Inr (ok, a')" by (simp add: ac3_snoc)
    from snoc.IH(1)[OF _ this] rv False have "R a1 a'" by simp
    with R1 show ?thesis by (rule trans)
  next
    case True
    with snoc.prems rv obtain Di where d: "DAList.lookup a1 Xi = Some Di"
      by (auto simp: ac3_snoc split: option.splits)
    show ?thesis
    proof (cases "Di = []")
      case True
      with \<open>r\<close> snoc.prems rv d have "a' = a1" by (simp add: ac3_snoc)
      with R1 show ?thesis by simp
    next
      case ne: False
      with \<open>r\<close> snoc.prems rv d obtain nb where nb: "get_all_neighboring_arcs s Xi = Inr nb"
        by (auto simp: ac3_snoc split: sum.splits)
      with ne \<open>r\<close> snoc.prems rv d
      have "ac3_inference s a1 (q @ enqueue Xj nb) = Inr (ok, a')"
        by (simp add: ac3_snoc)
      from snoc.IH(2)[OF _ d ne nb this] rv \<open>r\<close> have "R a1 a'" by simp
      with R1 show ?thesis by (rule trans)
    qed
  qed
qed

lemma ac3_undecided:
  "ac3_inference s a q = Inr (ok, a') \<Longrightarrow> undecided a' \<le> undecided a"
  by (rule ac3_rel[where R = "\<lambda>a a'. undecided a' \<le> undecided a"])
     (auto dest: revised_undecided)

text \<open>\<open>backtrack\<close> and its \<open>for\<close> loop over the values of the selected variable. The
  solver is threaded through for its two counters. The copies the source makes
  (\<open>copy.deepcopy\<close>) are the values themselves here: \<open>assignment\<close> is what every
  iteration of the loop starts from, whatever AC-3 did to the copy of the iteration
  before. \<open>assignment[Xi]\<close> with \<open>Xi = None\<close> is Python's \<open>KeyError\<close>.\<close>

function backtrack ::
    "'v solver \<Rightarrow> 'v assignment \<Rightarrow> 'v solver \<times> (error + 'v assignment option)"
  and backtrack_loop ::
    "'v solver \<Rightarrow> 'v assignment \<Rightarrow> var \<Rightarrow> 'v list \<Rightarrow>
       'v solver \<times> (error + 'v assignment option)" where
  "backtrack s assignment =
     (let s1 = s\<lparr>numCalls := numCalls s + 1\<rparr> in
      if hasCompletedThe assignment then (s1, Inr (Some assignment))
      else
        (case selectUnassignedVariableFrom assignment of
           None \<Rightarrow> (s1, Inl KeyError)
         | Some Xi \<Rightarrow>
             (case DAList.lookup assignment Xi of
                None \<Rightarrow> (s1, Inl KeyError)
              | Some candidates \<Rightarrow> backtrack_loop s1 assignment Xi candidates)))"
| "backtrack_loop s assignment Xi [] = (s\<lparr>numFailures := numFailures s + 1\<rparr>, Inr None)"
| "backtrack_loop s assignment Xi (Di # rest) =
     (if isConsistent Xi Di assignment then
        (let assignmentCopy = DAList.update Xi [Di] assignment in
         case ac3_inference s assignmentCopy (get_all_arcs s) of
           Inl e \<Rightarrow> (s, Inl e)
         | Inr (ok, assignmentCopy') \<Rightarrow>
             if ok then
               (case backtrack s assignmentCopy' of
                  (s', Inl e) \<Rightarrow> (s', Inl e)
                | (s', Inr (Some result)) \<Rightarrow> (s', Inr (Some result))
                | (s', Inr None) \<Rightarrow> backtrack_loop s' assignment Xi rest)
             else backtrack_loop s assignment Xi rest)
      else backtrack_loop s assignment Xi rest)"
  by pat_completeness auto
termination
proof (relation "measures
    [case_sum (\<lambda>(s, a). undecided a) (\<lambda>(s, a, Xi, ds). undecided_besides Xi a),
     case_sum (\<lambda>(s, a). 0) (\<lambda>(s, a, Xi, ds). Suc (length ds))]", goal_cases)
  case 1
  show ?case by simp
next
  case 2
  then show ?case by (simp add: select_undecided_less)
next
  case 3
  then show ?case by (auto dest!: ac3_undecided simp: undecided_pin)
next
  case 4
  then show ?case by simp
next
  case 5
  then show ?case by simp
next
  case 6
  then show ?case by simp
qed

declare backtrack.simps [simp del]

text \<open>\<open>backtracking_search\<close>: the assignment is a copy of the domains; the flag that the
  first run of AC-3 returns is dropped.\<close>

definition backtracking_search ::
    "'v solver \<Rightarrow> 'v solver \<times> (error + 'v assignment option)" where
  "backtracking_search s =
     (let assignment = domains s in
      case ac3_inference s assignment (get_all_arcs s) of
        Inl e \<Rightarrow> (s, Inl e)
      | Inr (ok, assignment') \<Rightarrow> backtrack s assignment')"

text \<open>The same two functions with a bound on the nesting of the recursion: a call of
  \<open>backtrack_depth depth\<close> runs the body of \<open>backtrack\<close> and lets the recursive calls
  nest at most \<open>depth\<close> levels below itself; it gives \<open>None\<close> where the source would
  go deeper.\<close>

fun backtrack_depth ::
    "nat \<Rightarrow> 'v solver \<Rightarrow> 'v assignment \<Rightarrow> ('v solver \<times> (error + 'v assignment option)) option"
  and backtrack_loop_depth ::
    "nat \<Rightarrow> 'v solver \<Rightarrow> 'v assignment \<Rightarrow> var \<Rightarrow> 'v list \<Rightarrow>
       ('v solver \<times> (error + 'v assignment option)) option" where
  "backtrack_depth depth s assignment =
     (let s1 = s\<lparr>numCalls := numCalls s + 1\<rparr> in
      if hasCompletedThe assignment then Some (s1, Inr (Some assignment))
      else
        (case selectUnassignedVariableFrom assignment of
           None \<Rightarrow> Some (s1, Inl KeyError)
         | Some Xi \<Rightarrow>
             (case DAList.lookup assignment Xi of
                None \<Rightarrow> Some (s1, Inl KeyError)
              | Some candidates \<Rightarrow> backtrack_loop_depth depth s1 assignment Xi candidates)))"
| "backtrack_loop_depth depth s assignment Xi [] =
     Some (s\<lparr>numFailures := numFailures s + 1\<rparr>, Inr None)"
| "backtrack_loop_depth depth s assignment Xi (Di # rest) =
     (if isConsistent Xi Di assignment then
        (let assignmentCopy = DAList.update Xi [Di] assignment in
         case ac3_inference s assignmentCopy (get_all_arcs s) of
           Inl e \<Rightarrow> Some (s, Inl e)
         | Inr (ok, assignmentCopy') \<Rightarrow>
             if ok then
               (case depth of
                  0 \<Rightarrow> None
                | Suc deeper \<Rightarrow>
                    (case backtrack_depth deeper s assignmentCopy' of
                       None \<Rightarrow> None
                     | Some (s', Inl e) \<Rightarrow> Some (s', Inl e)
                     | Some (s', Inr (Some result)) \<Rightarrow> Some (s', Inr (Some result))
                     | Some (s', Inr None) \<Rightarrow> backtrack_loop_depth depth s' assignment Xi rest))
             else backtrack_loop_depth depth s assignment Xi rest)
      else backtrack_loop_depth depth s assignment Xi rest)"

declare backtrack_depth.simps [simp del] backtrack_loop_depth.simps(2) [simp del]

text \<open>The values that the two counters take during a call, in the order of the writes:
  \<open>backtrack_writes\<close> follows \<open>backtrack\<close> line by line and lists, for every statement
  \<open>self.numCalls += 1\<close> and \<open>self.numFailures += 1\<close> that the call and the calls
  nested in it execute, the pair of the counters right after it. A call that raises has
  written what it wrote before raising.\<close>

definition counters :: "'v solver \<Rightarrow> int \<times> int" where
  "counters s = (numCalls s, numFailures s)"

function backtrack_writes :: "'v solver \<Rightarrow> 'v assignment \<Rightarrow> (int \<times> int) list"
  and backtrack_loop_writes ::
    "'v solver \<Rightarrow> 'v assignment \<Rightarrow> var \<Rightarrow> 'v list \<Rightarrow> (int \<times> int) list" where
  "backtrack_writes s assignment =
     (let s1 = s\<lparr>numCalls := numCalls s + 1\<rparr> in
      counters s1 #
      (if hasCompletedThe assignment then []
       else
         (case selectUnassignedVariableFrom assignment of
            None \<Rightarrow> []
          | Some Xi \<Rightarrow>
              (case DAList.lookup assignment Xi of
                 None \<Rightarrow> []
               | Some candidates \<Rightarrow> backtrack_loop_writes s1 assignment Xi candidates))))"
| "backtrack_loop_writes s assignment Xi [] = [counters (s\<lparr>numFailures := numFailures s + 1\<rparr>)]"
| "backtrack_loop_writes s assignment Xi (Di # rest) =
     (if isConsistent Xi Di assignment then
        (let assignmentCopy = DAList.update Xi [Di] assignment in
         case ac3_inference s assignmentCopy (get_all_arcs s) of
           Inl e \<Rightarrow> []
         | Inr (ok, assignmentCopy') \<Rightarrow>
             if ok then
               backtrack_writes s assignmentCopy' @
               (case backtrack s assignmentCopy' of
                  (s', Inl e) \<Rightarrow> []
                | (s', Inr (Some result)) \<Rightarrow> []
                | (s', Inr None) \<Rightarrow> backtrack_loop_writes s' assignment Xi rest)
             else backtrack_loop_writes s assignment Xi rest)
      else backtrack_loop_writes s assignment Xi rest)"
  by pat_completeness auto
termination
proof (relation "measures
    [case_sum (\<lambda>(s, a). undecided a) (\<lambda>(s, a, Xi, ds). undecided_besides Xi a),
     case_sum (\<lambda>(s, a). 0) (\<lambda>(s, a, Xi, ds). Suc (length ds))]", goal_cases)
  case 1
  show ?case by simp
next
  case 2
  then show ?case by (simp add: select_undecided_less)
next
  case 3
  then show ?case by (auto dest!: ac3_undecided simp: undecided_pin)
next
  case 4
  then show ?case by simp
next
  case 5
  then show ?case by simp
next
  case 6
  then show ?case by simp
qed

declare backtrack_writes.simps [simp del] backtrack_loop_writes.simps(2) [simp del]

definition backtracking_search_writes :: "'v solver \<Rightarrow> (int \<times> int) list" where
  "backtracking_search_writes s =
     (let assignment = domains s in
      case ac3_inference s assignment (get_all_arcs s) of
        Inl e \<Rightarrow> []
      | Inr (ok, assignment') \<Rightarrow> backtrack_writes s assignment')"


section \<open>Vocabulary of the properties\<close>

text \<open>The keys and the items of a dictionary, in its order.\<close>

definition keys :: "('k, 'x) DAList.alist \<Rightarrow> 'k list" where
  "keys d = map fst (DAList.impl_of d)"

definition items :: "'v assignment \<Rightarrow> (var \<times> 'v list) list" where
  "items a = DAList.impl_of a"

text \<open>What a call may change of the solver besides its two counters: nothing.\<close>

definition counters_only :: "'v solver \<Rightarrow> 'v solver \<Rightarrow> bool" where
  "counters_only s s' \<longleftrightarrow>
     variables s' = variables s \<and> domains s' = domains s \<and> constraints s' = constraints s"

text \<open>Assignments with no empty domain, and with one.\<close>

definition no_empty_domain :: "'v assignment \<Rightarrow> bool" where
  "no_empty_domain a = list_all (\<lambda>(k, d). d \<noteq> []) (DAList.impl_of a)"

definition has_empty_domain :: "'v assignment \<Rightarrow> bool" where
  "has_empty_domain a = list_ex (\<lambda>(k, d). d = []) (DAList.impl_of a)"

text \<open>A solution gives every variable a value of its domain such that every stored arc
  holds the pair of the values of its two variables; a solver is satisfiable when it has
  one.\<close>

definition solves :: "'v solver \<Rightarrow> (var \<Rightarrow> 'v) \<Rightarrow> bool" where
  "solves s \<sigma> \<longleftrightarrow>
     list_all (\<lambda>(k, d). \<sigma> k \<in> set d) (DAList.impl_of (domains s)) \<and>
     list_all (\<lambda>(i, j). case get_constraint s i j of
                           Inr ps \<Rightarrow> (\<sigma> i, \<sigma> j) \<in> set ps
                         | Inl e \<Rightarrow> False)
       (get_all_arcs s)"

definition satisfiable :: "'v solver \<Rightarrow> bool" where
  "satisfiable s \<longleftrightarrow> (\<exists>\<sigma>. solves s \<sigma>)"

text \<open>An arc \<open>(i, j)\<close> is registered when the table has an entry for it; the keys of
  the row of a variable, in their order; a table whose registered arcs all have their
  reverse registered.\<close>

definition registered :: "'v solver \<Rightarrow> var \<Rightarrow> var \<Rightarrow> bool" where
  "registered s i j = (case get_constraint s i j of Inr ps \<Rightarrow> True | Inl e \<Rightarrow> False)"

definition row_keys :: "'v solver \<Rightarrow> var \<Rightarrow> var list" where
  "row_keys s v = (case DAList.lookup (constraints s) v of Some c_v \<Rightarrow> keys c_v | None \<Rightarrow> [])"

definition symmetric_keys :: "'v solver \<Rightarrow> bool" where
  "symmetric_keys s = list_all (\<lambda>(i, j). registered s j i) (get_all_arcs s)"

text \<open>An arc \<open>(i, j)\<close> is supported in an assignment when every value left for \<open>i\<close>
  has a value left for \<open>j\<close> that the stored pairs allow with it; the assignment is
  arc-consistent when every registered arc is. The three conditions under which AC-3 is
  the textbook algorithm: the pairs stored for \<open>(j, i)\<close> are the pairs stored for
  \<open>(i, j)\<close> reversed (which includes that both arcs are registered), no arc goes from a
  variable to itself, and every variable of an arc has a domain in the assignment.\<close>

definition arc_supported :: "'v solver \<Rightarrow> 'v assignment \<Rightarrow> var \<Rightarrow> var \<Rightarrow> bool" where
  "arc_supported s a i j =
     (case get_constraint s i j of
        Inl e \<Rightarrow> False
      | Inr ps \<Rightarrow>
          (case DAList.lookup a i of
             None \<Rightarrow> False
           | Some Di \<Rightarrow>
               (case DAList.lookup a j of
                  None \<Rightarrow> False
                | Some Dj \<Rightarrow> list_all (satisfies ps Dj) Di)))"

definition arc_consistent :: "'v solver \<Rightarrow> 'v assignment \<Rightarrow> bool" where
  "arc_consistent s a = list_all (\<lambda>(i, j). arc_supported s a i j) (get_all_arcs s)"

definition converse_pairs :: "'v solver \<Rightarrow> bool" where
  "converse_pairs s =
     list_all (\<lambda>(i, j). case get_constraint s i j of
                           Inl e \<Rightarrow> False
                         | Inr ps \<Rightarrow>
                             (case get_constraint s j i of
                                Inl e \<Rightarrow> False
                              | Inr qs \<Rightarrow> set qs = prod.swap ` set ps))
       (get_all_arcs s)"

definition no_self_arcs :: "'v solver \<Rightarrow> bool" where
  "no_self_arcs s = list_all (\<lambda>(i, j). i \<noteq> j) (get_all_arcs s)"

definition covers :: "'v solver \<Rightarrow> 'v assignment \<Rightarrow> bool" where
  "covers s a =
     list_all (\<lambda>(i, j). DAList.lookup a i \<noteq> None \<and> DAList.lookup a j \<noteq> None) (get_all_arcs s)"

text \<open>The invariant of the loop of AC-3: a registered arc outside the queue is
  supported.\<close>

definition ac3_inv :: "'v solver \<Rightarrow> 'v assignment \<Rightarrow> arc list \<Rightarrow> bool" where
  "ac3_inv s a q \<longleftrightarrow> (\<forall>i j. registered s i j \<longrightarrow> (i, j) \<in> set q \<or> arc_supported s a i j)"

text \<open>An assignment with the keys of another and, for every key, no value outside the
  domain the other holds for it.\<close>

definition sub_assignment :: "'v assignment \<Rightarrow> 'v assignment \<Rightarrow> bool" where
  "sub_assignment a' a \<longleftrightarrow>
     keys a' = keys a \<and>
     list_all (\<lambda>(k, d'). case DAList.lookup a k of
                            None \<Rightarrow> False
                          | Some d \<Rightarrow> set d' \<subseteq> set d)
       (DAList.impl_of a')"

text \<open>A first run of AC-3 that returns \<open>True\<close> and leaves an assignment that is not
  arc-consistent.\<close>

definition ac3_true_inconsistent :: "'v solver \<Rightarrow> bool" where
  "ac3_true_inconsistent s =
     (case ac3_inference s (domains s) (get_all_arcs s) of
        Inl e \<Rightarrow> False
      | Inr (ok, a') \<Rightarrow> ok \<and> \<not> arc_consistent s a')"

text \<open>An arc whose stored pairs all have two different components; a list of variables
  whose ordered pairs of distinct variables all have such an arc (what
  \<open>add_all_different_constraint\<close> registers); the variables of a list having no arc to
  themselves; an assignment that gives single, pairwise different values to the
  variables of a list.\<close>

definition differ_only :: "'v solver \<Rightarrow> var \<Rightarrow> var \<Rightarrow> bool" where
  "differ_only s i j =
     (case get_constraint s i j of
        Inl e \<Rightarrow> False
      | Inr ps \<Rightarrow> list_all (\<lambda>(x, y). x \<noteq> y) ps)"

definition all_different_registered :: "'v solver \<Rightarrow> var list \<Rightarrow> bool" where
  "all_different_registered s var_list =
     list_all (\<lambda>(i, j). i = j \<or> differ_only s i j) (List.product var_list var_list)"

definition no_self_arc_on :: "'v solver \<Rightarrow> var list \<Rightarrow> bool" where
  "no_self_arc_on s var_list = list_all (\<lambda>v. \<not> registered s v v) var_list"

definition distinct_values :: "'v assignment \<Rightarrow> var list \<Rightarrow> bool" where
  "distinct_values a var_list =
     list_all (\<lambda>(i, j). i = j \<or>
                 (case DAList.lookup a i of
                    Some [x] \<Rightarrow> (case DAList.lookup a j of Some [y] \<Rightarrow> x \<noteq> y | _ \<Rightarrow> False)
                  | _ \<Rightarrow> False))
       (List.product var_list var_list)"

text \<open>An assignment that a run of AC-3 on all arcs returned with \<open>True\<close>, and the
  invariant of AC-3 for one pair of variables: one of the two arcs between them is
  queued or supported.\<close>

definition ac3_result :: "'v solver \<Rightarrow> 'v assignment \<Rightarrow> bool" where
  "ac3_result s a \<longleftrightarrow> (\<exists>b. ac3_inference s b (get_all_arcs s) = Inr (True, a))"

definition pair_inv :: "'v solver \<Rightarrow> var \<Rightarrow> var \<Rightarrow> 'v assignment \<Rightarrow> arc list \<Rightarrow> bool" where
  "pair_inv s i j a q \<longleftrightarrow>
     (i, j) \<in> set q \<or> (j, i) \<in> set q \<or> arc_supported s a i j \<or> arc_supported s a j i"

text \<open>The solvers that the three public methods build from a new one, and the result of
  a method that may raise, seen as built.\<close>

inductive built :: "'v solver \<Rightarrow> bool" where
  init: "built Solver_init"
| variable: "built s \<Longrightarrow> built (add_variable name domain s)"
| one_way: "built s \<Longrightarrow> add_constraint_one_way i j f s = Inr s' \<Longrightarrow> built s'"
| all_different: "built s \<Longrightarrow> add_all_different_constraint var_list s = Inr s' \<Longrightarrow> built s'"

definition built_result :: "error + 'v solver \<Rightarrow> bool" where
  "built_result r = (case r of Inl e \<Rightarrow> True | Inr s \<Rightarrow> built s)"

text \<open>A valuation \<open>\<sigma>\<close> that picks its values inside the domains of an assignment, and
  one that every stored constraint allows. An assignment is a solution of the solver when
  every domain is a single value of the variable's domain in the solver and, for every
  registered arc, the pair of the two values is among the stored pairs. A search returns
  a non-solution when it returns an assignment that is not one.\<close>

definition inside :: "(var \<Rightarrow> 'v) \<Rightarrow> 'v assignment \<Rightarrow> bool" where
  "inside \<sigma> a = list_all (\<lambda>(k, d). \<sigma> k \<in> set d) (DAList.impl_of a)"

definition allows :: "'v solver \<Rightarrow> (var \<Rightarrow> 'v) \<Rightarrow> bool" where
  "allows s \<sigma> \<longleftrightarrow> (\<forall>i j ps. get_constraint s i j = Inr ps \<longrightarrow> (\<sigma> i, \<sigma> j) \<in> set ps)"

definition is_solution :: "'v solver \<Rightarrow> 'v assignment \<Rightarrow> bool" where
  "is_solution s a \<longleftrightarrow>
     hasCompletedThe a \<and> sub_assignment a (domains s) \<and>
     list_all (\<lambda>(i, j). case get_constraint s i j of
                           Inl e \<Rightarrow> False
                         | Inr ps \<Rightarrow>
                             (case DAList.lookup a i of
                                Some [x] \<Rightarrow>
                                  (case DAList.lookup a j of
                                     Some [y] \<Rightarrow> (x, y) \<in> set ps
                                   | _ \<Rightarrow> False)
                              | _ \<Rightarrow> False))
       (get_all_arcs s)"

definition returns_non_solution :: "'v solver \<Rightarrow> bool" where
  "returns_non_solution s =
     (case snd (backtracking_search s) of
        Inr (Some asg) \<Rightarrow> \<not> is_solution s asg
      | _ \<Rightarrow> False)"

text \<open>One step of a counter: the call counter or the failure counter goes up by one and
  the other one stays.\<close>

definition call_step :: "int \<times> int \<Rightarrow> int \<times> int \<Rightarrow> bool" where
  "call_step c d \<longleftrightarrow> d = (fst c + 1, snd c)"

definition failure_step :: "int \<times> int \<Rightarrow> int \<times> int \<Rightarrow> bool" where
  "failure_step c d \<longleftrightarrow> d = (fst c, snd c + 1)"

fun steps_by_one :: "(int \<times> int) list \<Rightarrow> bool" where
  "steps_by_one (c # d # rest) \<longleftrightarrow> (call_step c d \<or> failure_step c d) \<and> steps_by_one (d # rest)"
| "steps_by_one [c] \<longleftrightarrow> True"
| "steps_by_one [] \<longleftrightarrow> True"

fun count_steps :: "(int \<times> int \<Rightarrow> int \<times> int \<Rightarrow> bool) \<Rightarrow> (int \<times> int) list \<Rightarrow> int" where
  "count_steps step (c # d # rest) = (if step c d then 1 else 0) + count_steps step (d # rest)"
| "count_steps step [c] = 0"
| "count_steps step [] = 0"

text \<open>The counters before a call followed by the writes of the call; the last step of
  such a list.\<close>

definition backtrack_trace :: "'v solver \<Rightarrow> 'v assignment \<Rightarrow> (int \<times> int) list" where
  "backtrack_trace s a = counters s # backtrack_writes s a"

definition backtracking_search_trace :: "'v solver \<Rightarrow> (int \<times> int) list" where
  "backtracking_search_trace s = counters s # backtracking_search_writes s"

definition last_step_is ::
    "(int \<times> int \<Rightarrow> int \<times> int \<Rightarrow> bool) \<Rightarrow> (int \<times> int) list \<Rightarrow> bool" where
  "last_step_is step t \<longleftrightarrow> 2 \<le> length t \<and> step (last (butlast t)) (last t)"


section \<open>Example problems\<close>

text \<open>Small solvers built with the methods above, on which the properties below are
  evaluated. Builders that can raise are chained with \<open>and_then\<close>.\<close>

definition and_then :: "error + 'a \<Rightarrow> ('a \<Rightarrow> error + 'b) \<Rightarrow> error + 'b" where
  "and_then r f = (case r of Inl e \<Rightarrow> Inl e | Inr x \<Rightarrow> f x)"

definition two_vars :: "nat solver" where
  "two_vars = add_variable ''B'' [1, 2] (add_variable ''A'' [1, 2, 3] Solver_init)"

definition the_solver :: "error + 'v solver \<Rightarrow> 'v solver" where
  "the_solver r = (case r of Inr s \<Rightarrow> s | Inl e \<Rightarrow> Solver_init)"

definition all_diff_ones :: "nat solver" where
  "all_diff_ones = the_solver (add_all_different_constraint [''A'', ''B'']
     (add_variable ''B'' [1] (add_variable ''A'' [1] Solver_init)))"

definition all_diff_two :: "nat solver" where
  "all_diff_two = the_solver (add_all_different_constraint [''A'', ''B'']
     (add_variable ''B'' [1, 2] (add_variable ''A'' [1, 2] Solver_init)))"

definition three_clique :: "nat solver" where
  "three_clique = the_solver (add_all_different_constraint [''A'', ''B'', ''C'']
     (add_variable ''C'' [1, 2] (add_variable ''B'' [1, 2] (add_variable ''A'' [1, 2] Solver_init))))"

definition undecided_example :: "nat assignment" where
  "undecided_example = DAList.update ''B'' [1] (DAList.update ''A'' [1, 2] DAList.empty)"

definition emptied_example :: "nat assignment" where
  "emptied_example = DAList.update ''B'' [] (DAList.update ''A'' [1] DAList.empty)"

definition one_way :: "nat solver" where
  "one_way = the_solver (add_constraint_one_way ''A'' ''B'' (\<lambda>x y. x \<noteq> y)
     (add_variable ''B'' [1] (add_variable ''A'' [1, 2] Solver_init)))"

definition not_converse :: "nat solver" where
  "not_converse = the_solver (and_then
     (add_constraint_one_way ''A'' ''B'' (\<lambda>x y. x = 1 \<and> y = 1)
        (add_variable ''B'' [1, 2] (add_variable ''A'' [1, 2] Solver_init)))
     (add_constraint_one_way ''B'' ''A'' (\<lambda>x y. x \<noteq> y)))"

definition one_way_chain :: "nat solver" where
  "one_way_chain = the_solver (and_then
     (add_constraint_one_way ''B'' ''C'' (\<lambda>x y. x = 1)
        (add_variable ''C'' [1] (add_variable ''A'' [1, 2] (add_variable ''B'' [1, 2] Solver_init))))
     (add_constraint_one_way ''A'' ''B'' (\<lambda>x y. x = y)))"

definition self_arc :: "nat solver" where
  "self_arc = the_solver
     (add_constraint_one_way ''A'' ''A'' (\<lambda>x y. x = 1 \<and> y = 2)
        (add_variable ''A'' [1, 2] Solver_init))"

definition all_diff_self_arc :: "nat solver" where
  "all_diff_self_arc = the_solver
     (and_then (and_then (and_then (and_then
        (add_constraint_one_way ''B'' ''B'' (\<lambda>x y. x = 1 \<and> y = 1)
           (add_variable ''C'' [1]
              (add_variable ''A'' [1, 2] (add_variable ''B'' [1, 2, 3] Solver_init))))
        (add_constraint_one_way ''B'' ''C'' (\<lambda>x y. x \<noteq> 3)))
        (add_all_different_constraint [''A'', ''B'']))
        (add_constraint_one_way ''A'' ''B'' (\<lambda>x y. y = x + 1)))
        (add_constraint_one_way ''C'' ''B'' (\<lambda>x y. True)))"

text \<open>Satisfiable problems on which the search goes wrong: constraints registered in one
  direction only, a constraint of a variable with itself, and two directions that hold
  different relations.\<close>

definition one_way_three :: "nat solver" where
  "one_way_three = the_solver (and_then
     (add_constraint_one_way ''A'' ''B'' (\<lambda>x y. x \<noteq> y)
        (add_variable ''C'' [1, 2] (add_variable ''B'' [1] (add_variable ''A'' [1, 2] Solver_init))))
     (add_constraint_one_way ''A'' ''C'' (\<lambda>x y. True)))"

definition self_arc_sat :: "nat solver" where
  "self_arc_sat = the_solver (and_then (and_then
     (add_constraint_one_way ''A'' ''B'' (\<lambda>x y. (x, y) \<in> {(1, 1), (2, 1), (3, 2)})
        (add_variable ''A'' [1, 2, 3] (add_variable ''B'' [1, 2] Solver_init)))
     (add_constraint_one_way ''A'' ''A'' (\<lambda>x y. (x, y) \<in> {(1, 2), (2, 3), (3, 3)})))
     (add_constraint_one_way ''B'' ''A'' (\<lambda>y x. (x, y) \<in> {(1, 1), (2, 1), (3, 2)})))"

definition not_converse_sat :: "nat solver" where
  "not_converse_sat = the_solver (and_then (and_then (and_then
     (add_constraint_one_way ''B'' ''C'' (\<lambda>x y. x \<le> y)
        (add_variable ''B'' [1, 2] (add_variable ''A'' [1, 2] (add_variable ''C'' [1, 2] Solver_init))))
     (add_constraint_one_way ''B'' ''A'' (\<lambda>x y. y = 2)))
     (add_constraint_one_way ''A'' ''B'' (\<lambda>x y. x = y)))
     (add_constraint_one_way ''C'' ''B'' (\<lambda>x y. y \<le> x)))"

text \<open>An assignment with an empty domain and an undecided variable; two variables that
  cannot differ beside a free one; constraints in one direction from \<open>C\<close> to two
  variables.\<close>

definition empty_and_undecided :: "nat assignment" where
  "empty_and_undecided = DAList.update ''B'' [1, 2] (DAList.update ''A'' [] DAList.empty)"

definition all_diff_ones_free :: "nat solver" where
  "all_diff_ones_free = the_solver (add_all_different_constraint [''A'', ''B'']
     (add_variable ''C'' [1, 2] (add_variable ''B'' [1] (add_variable ''A'' [1] Solver_init))))"

definition one_way_fan :: "nat solver" where
  "one_way_fan = the_solver (and_then
     (add_constraint_one_way ''C'' ''A'' (\<lambda>x y. x \<noteq> y)
        (add_variable ''B'' [1] (add_variable ''C'' [1, 2] (add_variable ''A'' [1, 2] Solver_init))))
     (add_constraint_one_way ''C'' ''B'' (\<lambda>x y. True)))"

text \<open>A problem that the search solves after one nested call ended exhausted: with
  \<open>X = 1\<close> the three variables of the group have two values left.\<close>

definition rescue :: "nat solver" where
  "rescue = the_solver (and_then (and_then
     (add_all_different_constraint [''Y'', ''Z'', ''W'']
        (add_variable ''W'' [1, 2, 3] (add_variable ''Z'' [1, 2]
          (add_variable ''Y'' [1, 2] (add_variable ''X'' [1, 2] Solver_init)))))
     (add_constraint_one_way ''X'' ''W'' (\<lambda>x w. x = 2 \<or> w \<noteq> 3)))
     (add_constraint_one_way ''W'' ''X'' (\<lambda>w x. x = 2 \<or> w \<noteq> 3)))"

text \<open>An all-different group \<open>A\<close>, \<open>B\<close> in a table where every constraint is
  registered in both directions with the reversed pairs; \<open>A\<close> and \<open>B\<close> each have a
  (symmetric) constraint with themselves.\<close>

definition all_diff_self_arcs :: "nat solver" where
  "all_diff_self_arcs = the_solver
     (and_then (and_then (and_then (and_then (and_then (and_then (and_then (and_then
        (add_constraint_one_way ''A'' ''A'' (\<lambda>x y. (x, y) \<in> {(1, 1), (2, 3), (3, 2)})
           (add_variable ''B'' [1, 2, 3] (add_variable ''A'' [1, 2, 3]
              (add_variable ''C'' [1, 2] (add_variable ''X'' [1] Solver_init)))))
        (add_constraint_one_way ''B'' ''B'' (\<lambda>x y. (x, y) \<in> {(1, 1), (2, 3), (3, 2)})))
        (add_all_different_constraint [''A'', ''B'']))
        (add_constraint_one_way ''A'' ''C'' (\<lambda>a c. a < 3 \<or> c = 2)))
        (add_constraint_one_way ''C'' ''A'' (\<lambda>c a. a < 3 \<or> c = 2)))
        (add_constraint_one_way ''B'' ''C'' (\<lambda>b c. b < 3 \<or> c = 2)))
        (add_constraint_one_way ''C'' ''B'' (\<lambda>c b. b < 3 \<or> c = 2)))
        (add_constraint_one_way ''C'' ''X'' (\<lambda>c x. c = 1)))
        (add_constraint_one_way ''X'' ''C'' (\<lambda>x c. c = 1)))"


section \<open>Properties\<close>

subsection \<open>The constraint table\<close>

lemma get_constraint_set:
  "set_constraint i j ps s = Inr s' \<Longrightarrow>
   get_constraint s' i' j' = (if i' = i \<and> j' = j then Inr ps else get_constraint s i' j')"
  by (auto simp: set_constraint_def get_constraint_def DAList.lookup_update
           split: option.splits if_splits)

lemma add_constraint_one_way_first:
  assumes "DAList.lookup (constraints s) i = Some c_i" "DAList.lookup c_i j = None"
    "DAList.lookup (domains s) i = Some d_i" "DAList.lookup (domains s) j = Some d_j"
  shows "\<exists>s'. add_constraint_one_way i j f s = Inr s' \<and>
           get_constraint s' i j = Inr (filter (\<lambda>(x, y). f x y) (List.product d_i d_j))"
  using assms
  by (auto simp: add_constraint_one_way_def set_constraint_def get_constraint_def
        get_all_possible_pairs_def DAList.lookup_update case_prod_unfold split: option.splits)

lemma add_constraint_one_way_again:
  assumes "get_constraint s i j = Inr ps"
  shows "\<exists>s'. add_constraint_one_way i j f s = Inr s' \<and>
           get_constraint s' i j = Inr (filter (\<lambda>(x, y). f x y) ps)"
  using assms
  by (auto simp: add_constraint_one_way_def set_constraint_def get_constraint_def
        DAList.lookup_update case_prod_unfold split: option.splits)

text \<open>
  Claim C8. A call of \<open>add_constraint_one_way i j f\<close> on a solver that has no entry for
  \<open>(i, j)\<close> yet (the first call) stores exactly the pairs of the cross product of the
  stored domains of \<open>i\<close> and \<open>j\<close> that satisfy \<open>f\<close>, in the order of the product. A call
  on a solver that has an entry \<open>ps\<close> for \<open>(i, j)\<close> (every later call) replaces it by
  the pairs of \<open>ps\<close> that satisfy \<open>f\<close>: the entry only narrows.
\<close>

theorem add_constraint_one_way_stores:
  "(DAList.lookup (constraints s) i = Some c_i \<and> DAList.lookup c_i j = None \<and>
    DAList.lookup (domains s) i = Some d_i \<and> DAList.lookup (domains s) j = Some d_j \<longrightarrow>
      (\<exists>s'. add_constraint_one_way i j f s = Inr s' \<and>
         get_constraint s' i j = Inr (filter (\<lambda>(x, y). f x y) (List.product d_i d_j)))) \<and>
   (get_constraint s i j = Inr ps \<longrightarrow>
      (\<exists>s'. add_constraint_one_way i j f s = Inr s' \<and>
         get_constraint s' i j = Inr (filter (\<lambda>(x, y). f x y) ps) \<and>
         set (filter (\<lambda>(x, y). f x y) ps) \<subseteq> set ps))"
  using add_constraint_one_way_first[of s i c_i j d_i d_j f]
    add_constraint_one_way_again[of s i j ps f]
  by auto

theorem add_constraint_one_way_stores_witness:
  "DAList.lookup (constraints two_vars) ''A'' = Some DAList.empty \<and>
   DAList.lookup DAList.empty ''B'' = (None :: (nat \<times> nat) list option) \<and>
   DAList.lookup (domains two_vars) ''A'' = Some [1, 2, 3] \<and>
   DAList.lookup (domains two_vars) ''B'' = Some [1, 2] \<and>
   (\<exists>s1. add_constraint_one_way ''A'' ''B'' (\<lambda>x y. x \<noteq> y) two_vars = Inr s1 \<and>
      get_constraint s1 ''A'' ''B'' = Inr [(1, 2), (2, 1), (3, 1), (3, 2)] \<and>
      (\<exists>s2. add_constraint_one_way ''A'' ''B'' (\<lambda>x y. x < y) s1 = Inr s2 \<and>
         get_constraint s2 ''A'' ''B'' = Inr [(1, 2)]))"
proof -
  have h: "DAList.lookup (constraints two_vars) ''A'' = Some DAList.empty \<and>
      DAList.lookup DAList.empty ''B'' = (None :: (nat \<times> nat) list option) \<and>
      DAList.lookup (domains two_vars) ''A'' = Some [1, 2, 3] \<and>
      DAList.lookup (domains two_vars) ''B'' = Some [1, 2]"
    by (simp add: two_vars_def add_variable_def Solver_init_def DAList.lookup_update)
  from add_constraint_one_way_stores[of two_vars "''A''" DAList.empty "''B''" "[1, 2, 3]" "[1, 2]"
      "\<lambda>x y. x \<noteq> y" "[]"] h
  obtain s1 where s1: "add_constraint_one_way ''A'' ''B'' (\<lambda>x y. x \<noteq> y) two_vars = Inr s1"
    and g1: "get_constraint s1 ''A'' ''B'' = Inr [(1, 2), (2, 1), (3, 1), (3, 2)]"
    by auto
  from add_constraint_one_way_stores[of s1 "''A''" DAList.empty "''B''" "[]" "[]"
      "\<lambda>x y. x < y" "[(1, 2), (2, 1), (3, 1), (3, 2)]"] g1
  obtain s2 where "add_constraint_one_way ''A'' ''B'' (\<lambda>x y. x < y) s1 = Inr s2"
    "get_constraint s2 ''A'' ''B'' = Inr [(1, 2)]"
    by auto
  with h s1 g1 show ?thesis by blast
qed

subsection \<open>Rules for the search\<close>

lemma backtrack_unfold:
  "backtrack s a =
     (if hasCompletedThe a then (s\<lparr>numCalls := numCalls s + 1\<rparr>, Inr (Some a))
      else
        (case selectUnassignedVariableFrom a of
           None \<Rightarrow> (s\<lparr>numCalls := numCalls s + 1\<rparr>, Inl KeyError)
         | Some Xi \<Rightarrow>
             (case DAList.lookup a Xi of
                None \<Rightarrow> (s\<lparr>numCalls := numCalls s + 1\<rparr>, Inl KeyError)
              | Some candidates \<Rightarrow>
                  backtrack_loop (s\<lparr>numCalls := numCalls s + 1\<rparr>) a Xi candidates)))"
  by (simp add: backtrack.simps Let_def)

lemma backtrack_loop_Cons:
  "backtrack_loop s a Xi (Di # rest) =
     (case ac3_inference s (DAList.update Xi [Di] a) (get_all_arcs s) of
        Inl e \<Rightarrow> (s, Inl e)
      | Inr (ok, a') \<Rightarrow>
          if ok then
            (case backtrack s a' of
               (s', Inl e) \<Rightarrow> (s', Inl e)
             | (s', Inr (Some result)) \<Rightarrow> (s', Inr (Some result))
             | (s', Inr None) \<Rightarrow> backtrack_loop s' a Xi rest)
          else backtrack_loop s a Xi rest)"
  by (simp add: isConsistent_def Let_def)

declare backtrack_loop.simps(2) [simp del]

lemma backtrack_induct [case_names backtrack Nil Cons]:
  assumes "\<And>s a.
      (\<And>Xi cands. \<not> hasCompletedThe a \<Longrightarrow> selectUnassignedVariableFrom a = Some Xi \<Longrightarrow>
          DAList.lookup a Xi = Some cands \<Longrightarrow>
          Q (s\<lparr>numCalls := numCalls s + 1\<rparr>) a Xi cands) \<Longrightarrow>
      P s a"
    and "\<And>s a Xi. Q s a Xi []"
    and "\<And>s a Xi Di rest.
      (\<And>a'. ac3_inference s (DAList.update Xi [Di] a) (get_all_arcs s) = Inr (True, a') \<Longrightarrow>
          P s a') \<Longrightarrow>
      (\<And>a' s'. ac3_inference s (DAList.update Xi [Di] a) (get_all_arcs s) = Inr (True, a') \<Longrightarrow>
          backtrack s a' = (s', Inr None) \<Longrightarrow> Q s' a Xi rest) \<Longrightarrow>
      (\<And>a'. ac3_inference s (DAList.update Xi [Di] a) (get_all_arcs s) = Inr (False, a') \<Longrightarrow>
          Q s a Xi rest) \<Longrightarrow>
      Q s a Xi (Di # rest)"
  shows "P s a" and "Q s a Xi ds"
proof (induction s a and s a Xi ds rule: backtrack_backtrack_loop.induct)
  case (1 s a)
  show ?case
  proof (rule assms(1))
    fix Xi cands
    assume "\<not> hasCompletedThe a" "selectUnassignedVariableFrom a = Some Xi"
      "DAList.lookup a Xi = Some cands"
    then show "Q (s\<lparr>numCalls := numCalls s + 1\<rparr>) a Xi cands"
      by (rule "1.IH"[OF refl])
  qed
next
  case (2 s a Xi)
  show ?case by (rule assms(2))
next
  case (3 s a Xi Di rest)
  have c: "isConsistent Xi Di a" by (simp add: isConsistent_def)
  show ?case
  proof (rule assms(3))
    fix a' assume h: "ac3_inference s (DAList.update Xi [Di] a) (get_all_arcs s) = Inr (True, a')"
    show "P s a'" by (rule "3.IH"(1)[OF c refl h refl]) simp
  next
    fix a' s'
    assume h: "ac3_inference s (DAList.update Xi [Di] a) (get_all_arcs s) = Inr (True, a')"
      and b: "backtrack s a' = (s', Inr None)"
    show "Q s' a Xi rest"
      by (rule "3.IH"(2)[OF c refl h refl _ b[symmetric] refl refl]) simp
  next
    fix a' assume h: "ac3_inference s (DAList.update Xi [Di] a) (get_all_arcs s) = Inr (False, a')"
    show "Q s a Xi rest" by (rule "3.IH"(3)[OF c refl h refl]) simp
  qed
qed

lemma backtrack_cases [consumes 1, case_names complete stuck loop]:
  assumes "backtrack s a = (s', r)"
  obtains
    (complete) "hasCompletedThe a" "s' = s\<lparr>numCalls := numCalls s + 1\<rparr>" "r = Inr (Some a)"
  | (stuck) "\<not> hasCompletedThe a"
      "selectUnassignedVariableFrom a = None \<or>
       (\<exists>Xi. selectUnassignedVariableFrom a = Some Xi \<and> DAList.lookup a Xi = None)"
      "s' = s\<lparr>numCalls := numCalls s + 1\<rparr>" "r = Inl KeyError"
  | (loop) Xi cands where "\<not> hasCompletedThe a" "selectUnassignedVariableFrom a = Some Xi"
      "DAList.lookup a Xi = Some cands"
      "backtrack_loop (s\<lparr>numCalls := numCalls s + 1\<rparr>) a Xi cands = (s', r)"
  using assms
  by (auto simp: backtrack_unfold split: if_splits option.splits)

lemma backtrack_loop_cases [consumes 1, case_names error pruned found raised exhausted]:
  assumes "backtrack_loop s a Xi (Di # rest) = (s', r)"
  obtains
    (error) e where "ac3_inference s (DAList.update Xi [Di] a) (get_all_arcs s) = Inl e"
      "s' = s" "r = Inl e"
  | (pruned) a' where
      "ac3_inference s (DAList.update Xi [Di] a) (get_all_arcs s) = Inr (False, a')"
      "backtrack_loop s a Xi rest = (s', r)"
  | (found) a' res where
      "ac3_inference s (DAList.update Xi [Di] a) (get_all_arcs s) = Inr (True, a')"
      "backtrack s a' = (s', Inr (Some res))" "r = Inr (Some res)"
  | (raised) a' e where
      "ac3_inference s (DAList.update Xi [Di] a) (get_all_arcs s) = Inr (True, a')"
      "backtrack s a' = (s', Inl e)" "r = Inl e"
  | (exhausted) a' s1 where
      "ac3_inference s (DAList.update Xi [Di] a) (get_all_arcs s) = Inr (True, a')"
      "backtrack s a' = (s1, Inr None)" "backtrack_loop s1 a Xi rest = (s', r)"
  using assms
  by (auto simp: backtrack_loop_Cons split: sum.splits if_splits prod.splits option.splits)

lemma counters_only_refl [simp]: "counters_only s s"
  by (simp add: counters_only_def)

lemma counters_only_trans: "counters_only s t \<Longrightarrow> counters_only t u \<Longrightarrow> counters_only s u"
  by (simp add: counters_only_def)

lemma counters_only_calls: "counters_only (s\<lparr>numCalls := n\<rparr>) s' \<Longrightarrow> counters_only s s'"
  by (simp add: counters_only_def)

lemma backtrack_frame:
  "\<forall>s' r. backtrack s a = (s', r) \<longrightarrow> counters_only s s'"
  "\<forall>s' r. backtrack_loop s a Xi ds = (s', r) \<longrightarrow> counters_only s s'"
proof (induction s a and s a Xi ds rule: backtrack_induct)
  case (backtrack s a)
  show ?case
  proof (intro allI impI)
    fix s' r assume "backtrack s a = (s', r)"
    then show "counters_only s s'"
    proof (cases rule: backtrack_cases)
      case complete
      then show ?thesis by (simp add: counters_only_def)
    next
      case stuck
      then show ?thesis by (simp add: counters_only_def)
    next
      case (loop Xi cands)
      with backtrack.IH show ?thesis by (blast intro: counters_only_calls)
    qed
  qed
next
  case (Nil s a Xi)
  show ?case by (auto simp: counters_only_def)
next
  case (Cons s a Xi Di rest)
  show ?case
  proof (intro allI impI)
    fix s' r assume "backtrack_loop s a Xi (Di # rest) = (s', r)"
    then show "counters_only s s'"
    proof (cases rule: backtrack_loop_cases)
      case (error e)
      then show ?thesis by simp
    next
      case (pruned a')
      with Cons.IH(3) show ?thesis by blast
    next
      case (found a' res)
      with Cons.IH(1) show ?thesis by blast
    next
      case (raised a' e)
      with Cons.IH(1) show ?thesis by blast
    next
      case (exhausted a' s1)
      with Cons.IH(1) have "counters_only s s1" by blast
      moreover from exhausted Cons.IH(2) have "counters_only s1 s'" by blast
      ultimately show ?thesis by (rule counters_only_trans)
    qed
  qed
qed

lemma backtrack_counters:
  "\<forall>s' r. backtrack s a = (s', r) \<longrightarrow>
     numCalls s < numCalls s' \<and> numFailures s \<le> numFailures s' \<and>
     numFailures s' - numFailures s \<le> numCalls s' - numCalls s \<and>
     (r = Inr None \<longrightarrow> numFailures s' - numFailures s = numCalls s' - numCalls s) \<and>
     ((\<exists>res. r = Inr (Some res)) \<longrightarrow> numFailures s' - numFailures s < numCalls s' - numCalls s)"
  "\<forall>s' r. backtrack_loop s a Xi ds = (s', r) \<longrightarrow>
     numCalls s \<le> numCalls s' \<and> numFailures s \<le> numFailures s' \<and>
     (r = Inr None \<longrightarrow> numFailures s' - numFailures s = numCalls s' - numCalls s + 1) \<and>
     (r \<noteq> Inr None \<longrightarrow> numFailures s' - numFailures s \<le> numCalls s' - numCalls s) \<and>
     ((\<exists>res. r = Inr (Some res)) \<longrightarrow> numFailures s' - numFailures s < numCalls s' - numCalls s)"
proof (induction s a and s a Xi ds rule: backtrack_induct)
  case (backtrack s a)
  show ?case
  proof (intro allI impI)
    fix s' r assume "backtrack s a = (s', r)"
    then show "numCalls s < numCalls s' \<and> numFailures s \<le> numFailures s' \<and>
     numFailures s' - numFailures s \<le> numCalls s' - numCalls s \<and>
     (r = Inr None \<longrightarrow> numFailures s' - numFailures s = numCalls s' - numCalls s) \<and>
     ((\<exists>res. r = Inr (Some res)) \<longrightarrow> numFailures s' - numFailures s < numCalls s' - numCalls s)"
    proof (cases rule: backtrack_cases)
      case complete
      then show ?thesis by simp
    next
      case stuck
      then show ?thesis by simp
    next
      case (loop Xi cands)
      from backtrack.IH[OF loop(1,2,3)] loop(4) show ?thesis
        by (cases "r = Inr None") force+
    qed
  qed
next
  case (Nil s a Xi)
  show ?case by auto
next
  case (Cons s a Xi Di rest)
  show ?case
  proof (intro allI impI)
    fix s' r assume "backtrack_loop s a Xi (Di # rest) = (s', r)"
    then show "numCalls s \<le> numCalls s' \<and> numFailures s \<le> numFailures s' \<and>
     (r = Inr None \<longrightarrow> numFailures s' - numFailures s = numCalls s' - numCalls s + 1) \<and>
     (r \<noteq> Inr None \<longrightarrow> numFailures s' - numFailures s \<le> numCalls s' - numCalls s) \<and>
     ((\<exists>res. r = Inr (Some res)) \<longrightarrow> numFailures s' - numFailures s < numCalls s' - numCalls s)"
    proof (cases rule: backtrack_loop_cases)
      case (error e)
      then show ?thesis by simp
    next
      case (pruned a')
      with Cons.IH(3) show ?thesis by blast
    next
      case (found a' res)
      with Cons.IH(1)[OF found(1)] show ?thesis by force
    next
      case (raised a' e)
      with Cons.IH(1)[OF raised(1)] show ?thesis by force
    next
      case (exhausted a' s1)
      from Cons.IH(1)[OF exhausted(1)] exhausted(2)
      have 1: "numCalls s < numCalls s1" "numFailures s \<le> numFailures s1"
        "numFailures s1 - numFailures s = numCalls s1 - numCalls s" by auto
      from Cons.IH(2)[OF exhausted(1,2)] exhausted(3)
      have 2: "numCalls s1 \<le> numCalls s'" "numFailures s1 \<le> numFailures s'"
        "r = Inr None \<longrightarrow> numFailures s' - numFailures s1 = numCalls s' - numCalls s1 + 1"
        "r \<noteq> Inr None \<longrightarrow> numFailures s' - numFailures s1 \<le> numCalls s' - numCalls s1"
        "(\<exists>res. r = Inr (Some res)) \<longrightarrow> numFailures s' - numFailures s1 < numCalls s' - numCalls s1"
        by auto
      from 1 2 show ?thesis by auto
    qed
  qed
qed

lemma backtrack_depth_enough:
  "\<forall>n. undecided a \<le> n \<longrightarrow> backtrack_depth n s a = Some (backtrack s a)"
  "\<forall>n. undecided_besides Xi a < n \<longrightarrow>
     backtrack_loop_depth n s a Xi ds = Some (backtrack_loop s a Xi ds)"
proof (induction s a and s a Xi ds rule: backtrack_induct)
  case (backtrack s a)
  show ?case
  proof (intro allI impI)
    fix n assume n: "undecided a \<le> n"
    show "backtrack_depth n s a = Some (backtrack s a)"
    proof (cases "hasCompletedThe a")
      case True
      then show ?thesis by (simp add: backtrack_depth.simps backtrack_unfold)
    next
      case False
      show ?thesis
      proof (cases "selectUnassignedVariableFrom a")
        case None
        with False show ?thesis by (simp add: backtrack_depth.simps backtrack_unfold)
      next
        case (Some Xi)
        note sel = this
        show ?thesis
        proof (cases "DAList.lookup a Xi")
          case None
          with False sel show ?thesis by (simp add: backtrack_depth.simps backtrack_unfold)
        next
          case (Some cands)
          from select_undecided_less[OF sel] n have "undecided_besides Xi a < n" by simp
          with backtrack.IH[OF False sel Some] False sel Some show ?thesis
            by (simp add: backtrack_depth.simps backtrack_unfold Let_def)
        qed
      qed
    qed
  qed
next
  case (Nil s a Xi)
  show ?case by simp
next
  case (Cons s a Xi Di rest)
  show ?case
  proof (intro allI impI)
    fix n assume n: "undecided_besides Xi a < n"
    then obtain m where m: "n = Suc m" by (cases n) auto
    show "backtrack_loop_depth n s a Xi (Di # rest) = Some (backtrack_loop s a Xi (Di # rest))"
    proof (cases "ac3_inference s (DAList.update Xi [Di] a) (get_all_arcs s)")
      case (Inl e)
      then show ?thesis
        by (simp add: backtrack_loop_depth.simps backtrack_loop_Cons isConsistent_def)
    next
      case (Inr p)
      obtain ok a' where p: "p = (ok, a')" by (cases p)
      show ?thesis
      proof (cases ok)
        case False
        with Cons.IH(3)[of a'] Inr p n show ?thesis
          by (simp add: backtrack_loop_depth.simps backtrack_loop_Cons isConsistent_def)
      next
        case True
        from ac3_undecided[OF Inr[unfolded p]] n m have "undecided a' \<le> m"
          by (simp add: undecided_pin)
        with Cons.IH(1)[of a'] Inr p True
        have d: "backtrack_depth m s a' = Some (backtrack s a')" by simp
        obtain s1 r1 where b1: "backtrack s a' = (s1, r1)" by (cases "backtrack s a'")
        show ?thesis
        proof (cases "r1 = Inr None")
          case True
          with Cons.IH(2)[of a' s1] Inr p \<open>ok\<close> b1 n
          have "backtrack_loop_depth n s1 a Xi rest = Some (backtrack_loop s1 a Xi rest)"
            by simp
          with Inr p \<open>ok\<close> d b1 True m show ?thesis
            by (simp add: backtrack_loop_depth.simps backtrack_loop_Cons isConsistent_def)
        next
          case False
          with Inr p \<open>ok\<close> d b1 m show ?thesis
            by (auto simp: backtrack_loop_depth.simps backtrack_loop_Cons isConsistent_def
                     split: sum.splits option.splits)
        qed
      qed
    qed
  qed
qed

lemma undecided_le_length: "undecided a \<le> length (DAList.impl_of a)"
  by (simp add: undecided_def)

lemma keys_update_present:
  "DAList.lookup a k = Some d \<Longrightarrow> keys (DAList.update k d' a) = keys a"
  by (auto simp: keys_def DAList.lookup.rep_eq DAList.update.rep_eq update_keys
           dest: map_of_SomeD intro: rev_image_eqI)

lemma revised_keys: "revised s a Xi Xj = Inr (r, a') \<Longrightarrow> keys a' = keys a"
  by (erule revised_Inr) (simp add: keys_update_present)

lemma ac3_keys: "ac3_inference s a q = Inr (ok, a') \<Longrightarrow> keys a' = keys a"
  by (rule ac3_rel[where R = "\<lambda>a a'. keys a' = keys a"]) (auto dest: revised_keys)

lemma undecided_le_keys: "undecided a \<le> length (keys a)"
  by (simp add: undecided_def keys_def)

lemma all_diff_ones_search:
  "map_sum id (map_prod id items)
     (ac3_inference all_diff_ones (domains all_diff_ones) (get_all_arcs all_diff_ones))
     = Inr (False, [(''A'', [1]), (''B'', [])]) \<and>
   snd (backtracking_search all_diff_ones) = Inl KeyError \<and>
   numCalls (fst (backtracking_search all_diff_ones)) = 1 \<and>
   numFailures (fst (backtracking_search all_diff_ones)) = 0"
  by code_simp

lemma three_clique_search:
  "snd (backtracking_search three_clique) = Inr None \<and>
   numCalls (fst (backtracking_search three_clique)) = 1 \<and>
   numFailures (fst (backtracking_search three_clique)) = 1"
  by code_simp

lemma all_diff_two_search:
  "map_sum id (map_option items) (snd (backtracking_search all_diff_two))
     = Inr (Some [(''A'', [1]), (''B'', [2])]) \<and>
   numCalls (fst (backtracking_search all_diff_two)) = 2 \<and>
   numFailures (fst (backtracking_search all_diff_two)) = 0"
  by code_simp

lemma hasCompleted_items_iff:
  "hasCompleted_items al \<longleftrightarrow> (\<forall>p \<in> set al. length (snd p) = 1)"
  by (induction al rule: hasCompleted_items.induct) auto

lemma select_items_None_iff:
  "select_items al = None \<longleftrightarrow> (\<forall>p \<in> set al. length (snd p) \<le> 1)"
  by (induction al rule: select_items.induct) auto

lemma undecided_0_iff:
  "undecided a = 0 \<longleftrightarrow> (\<forall>p \<in> set (DAList.impl_of a). length (snd p) \<le> 1)"
  by (force simp: undecided_def filter_empty_conv not_less)

lemma select_defined:
  assumes "\<not> hasCompletedThe a" "no_empty_domain a"
  shows "\<exists>Xi d. selectUnassignedVariableFrom a = Some Xi \<and> DAList.lookup a Xi = Some d \<and>
           1 < length d"
proof -
  from assms(1) obtain k d where kd: "(k, d) \<in> set (DAList.impl_of a)" "length d \<noteq> 1"
    by (auto simp: hasCompletedThe_def hasCompleted_items_iff)
  with assms(2) have "d \<noteq> []" by (auto simp: no_empty_domain_def list_all_iff)
  with kd have "1 < length d" by (cases d) auto
  have "select_items (DAList.impl_of a) \<noteq> None"
  proof
    assume "select_items (DAList.impl_of a) = None"
    then have "length (snd (k, d)) \<le> 1" using kd(1) unfolding select_items_None_iff by blast
    with \<open>1 < length d\<close> show False by simp
  qed
  then obtain Xi where sel: "selectUnassignedVariableFrom a = Some Xi"
    by (auto simp: selectUnassignedVariableFrom_def)
  then obtain d' where "(Xi, d') \<in> set (DAList.impl_of a)" "1 < length d'"
    unfolding selectUnassignedVariableFrom_def by (blast dest: select_items_Some)
  then have "DAList.lookup a Xi = Some d'" by (simp add: DAList.lookup.rep_eq)
  with sel \<open>1 < length d'\<close> show ?thesis by blast
qed

lemma backtrack_stuck:
  assumes "has_empty_domain a" "undecided a = 0"
  shows "selectUnassignedVariableFrom a = None"
    and "backtrack s a = (s\<lparr>numCalls := numCalls s + 1\<rparr>, Inl KeyError)"
proof -
  from assms(2) show sel: "selectUnassignedVariableFrom a = None"
    by (simp add: selectUnassignedVariableFrom_def select_items_None_iff undecided_0_iff)
  from assms(1) have "\<not> hasCompletedThe a"
    by (force simp: has_empty_domain_def list_ex_iff hasCompletedThe_def hasCompleted_items_iff)
  with sel show "backtrack s a = (s\<lparr>numCalls := numCalls s + 1\<rparr>, Inl KeyError)"
    by (simp add: backtrack_unfold)
qed

lemma all_diff_ones_stuck:
  "\<exists>a. ac3_inference all_diff_ones (domains all_diff_ones) (get_all_arcs all_diff_ones)
          = Inr (False, a) \<and> has_empty_domain a \<and> undecided a = 0"
proof -
  have "case ac3_inference all_diff_ones (domains all_diff_ones) (get_all_arcs all_diff_ones) of
          Inl e \<Rightarrow> False
        | Inr (ok, a) \<Rightarrow> \<not> ok \<and> has_empty_domain a \<and> undecided a = 0"
    by code_simp
  then show ?thesis by (auto split: sum.splits)
qed

lemma all_diff_ones_unsat: "\<not> satisfiable all_diff_ones"
proof -
  have "get_all_arcs all_diff_ones = [(''A'', ''B''), (''B'', ''A'')] \<and>
        get_constraint all_diff_ones ''A'' ''B'' = Inr []"
    by code_simp
  then show ?thesis by (simp add: satisfiable_def solves_def)
qed

lemma backtracking_search_counters_only:
  "counters_only s (fst (backtracking_search s))"
proof (cases "ac3_inference s (domains s) (get_all_arcs s)")
  case (Inl e)
  then show ?thesis by (simp add: backtracking_search_def)
next
  case (Inr p)
  obtain ok a where "p = (ok, a)" by (cases p)
  with Inr have "backtracking_search s = backtrack s a" by (simp add: backtracking_search_def)
  with backtrack_frame(1)[of s a] show ?thesis by (cases "backtrack s a") auto
qed

subsection \<open>The claims about the search driver\<close>

text \<open>
  Claim C2 (what the code does on the input where it departs from the claim). The
  solver with the variables \<open>A\<close> and \<open>B\<close>, both of domain \<open>[1]\<close>, and an all-different
  constraint on them is unsatisfiable; \<open>backtracking_search\<close> does not return the "no
  solution" value on it but raises \<open>KeyError\<close>, after one call of \<open>backtrack\<close> and no
  counted failure.
\<close>

theorem search_raises_where_ac3_failed:
  "\<not> satisfiable all_diff_ones \<and>
   snd (backtracking_search all_diff_ones) = Inl KeyError \<and>
   numCalls (fst (backtracking_search all_diff_ones)) = 1 \<and>
   numFailures (fst (backtracking_search all_diff_ones)) = 0"
  using all_diff_ones_unsat all_diff_ones_search by simp

text \<open>
  Claim C6. After \<open>backtracking_search\<close>, whatever it returned or raised, the list of
  variables, the dictionary of domains and the constraint table of the solver are what
  they were before the call.
\<close>

theorem backtracking_search_frame:
  "variables (fst (backtracking_search s)) = variables s \<and>
   domains (fst (backtracking_search s)) = domains s \<and>
   constraints (fst (backtracking_search s)) = constraints s"
  using backtracking_search_counters_only[of s] by (simp add: counters_only_def)

text \<open>
  Claim C7. \<open>backtrack\<close> terminates on every assignment (it is a total function, by the
  measure of its definition). Every recursive call is made on an assignment with strictly fewer
  undecided variables (domains of more than one value) than the one of the calling
  invocation, so the calls nest at most as deep as the assignment has undecided
  variables, which is at most its number of variables: with that depth allowed,
  \<open>backtrack_depth\<close> never refuses a call and agrees with \<open>backtrack\<close>. For the
  assignment that \<open>backtracking_search\<close> starts from, the bound is the number of
  variables of the solver.
\<close>

theorem backtrack_depth_bounded:
  "backtrack_depth (undecided a) s a = Some (backtrack s a) \<and>
   undecided a \<le> length (keys a) \<and>
   (selectUnassignedVariableFrom a = Some Xi \<and>
    ac3_inference s (DAList.update Xi [Di] a) (get_all_arcs s) = Inr (ok, a') \<longrightarrow>
      undecided a' < undecided a) \<and>
   (ac3_inference s (domains s) (get_all_arcs s) = Inr (ok0, a0) \<longrightarrow>
      backtracking_search s = backtrack s a0 \<and>
      backtrack_depth (length (keys (domains s))) s a0 = Some (backtrack s a0))"
proof -
  have 1: "backtrack_depth (undecided a) s a = Some (backtrack s a)"
    using backtrack_depth_enough(1)[of a s] by simp
  have 2: "undecided a' < undecided a"
    if "selectUnassignedVariableFrom a = Some Xi"
      "ac3_inference s (DAList.update Xi [Di] a) (get_all_arcs s) = Inr (ok, a')"
  proof -
    from ac3_undecided[OF that(2)] have "undecided a' \<le> undecided_besides Xi a"
      by (simp add: undecided_pin)
    with select_undecided_less[OF that(1)] show ?thesis by simp
  qed
  have 3: "backtracking_search s = backtrack s a0 \<and>
      backtrack_depth (length (keys (domains s))) s a0 = Some (backtrack s a0)"
    if r: "ac3_inference s (domains s) (get_all_arcs s) = Inr (ok0, a0)"
  proof -
    from ac3_keys[OF r] undecided_le_keys[of a0]
    have "undecided a0 \<le> length (keys (domains s))" by simp
    with backtrack_depth_enough(1)[of a0 s] r show ?thesis
      by (simp add: backtracking_search_def)
  qed
  from 1 2 3 undecided_le_keys[of a] show ?thesis by blast
qed

theorem backtrack_depth_bounded_witness:
  "selectUnassignedVariableFrom (domains all_diff_two) = Some ''A'' \<and>
   undecided (domains all_diff_two) = 2 \<and>
   length (keys (domains all_diff_two)) = 2 \<and>
   (\<exists>a'. ac3_inference all_diff_two (DAList.update ''A'' [1] (domains all_diff_two))
            (get_all_arcs all_diff_two) = Inr (True, a') \<and>
         undecided a' < 2) \<and>
   (\<exists>a0. ac3_inference all_diff_two (domains all_diff_two) (get_all_arcs all_diff_two)
            = Inr (True, a0) \<and>
         backtrack_depth 2 all_diff_two a0 = Some (backtracking_search all_diff_two))"
proof -
  have h: "selectUnassignedVariableFrom (domains all_diff_two) = Some ''A'' \<and>
     undecided (domains all_diff_two) = 2 \<and> length (keys (domains all_diff_two)) = 2"
    by code_simp
  have "case ac3_inference all_diff_two (DAList.update ''A'' [1] (domains all_diff_two))
            (get_all_arcs all_diff_two) of Inr (ok, a') \<Rightarrow> ok | Inl e \<Rightarrow> False"
    by code_simp
  then obtain a' where a': "ac3_inference all_diff_two
      (DAList.update ''A'' [1] (domains all_diff_two)) (get_all_arcs all_diff_two) = Inr (True, a')"
    by (auto split: sum.splits)
  have "case ac3_inference all_diff_two (domains all_diff_two) (get_all_arcs all_diff_two) of
          Inr (ok, a') \<Rightarrow> ok | Inl e \<Rightarrow> False"
    by code_simp
  then obtain a0 where a0: "ac3_inference all_diff_two (domains all_diff_two)
      (get_all_arcs all_diff_two) = Inr (True, a0)"
    by (auto split: sum.splits)
  from backtrack_depth_bounded[of "domains all_diff_two" all_diff_two "''A''" 1 True a' True a0]
    h a' a0
  have "undecided a' < 2 \<and>
     backtrack_depth 2 all_diff_two a0 = Some (backtracking_search all_diff_two)"
    by simp
  with h a' a0 show ?thesis by blast
qed

subsection \<open>Arcs\<close>

lemma registered_iff: "registered s i j \<longleftrightarrow> (\<exists>ps. get_constraint s i j = Inr ps)"
  by (auto simp: registered_def split: sum.splits)

lemma registered_lookup:
  "registered s i j \<longleftrightarrow>
     (\<exists>c_i ps. DAList.lookup (constraints s) i = Some c_i \<and> DAList.lookup c_i j = Some ps)"
  by (auto simp: registered_iff get_constraint_def split: option.splits)

lemma in_impl_of_iff: "(k, v) \<in> set (DAList.impl_of d) \<longleftrightarrow> DAList.lookup d k = Some v"
  by (simp add: DAList.lookup.rep_eq)

lemma in_keys_iff: "k \<in> set (keys d) \<longleftrightarrow> (\<exists>v. DAList.lookup d k = Some v)"
  by (force simp: keys_def in_impl_of_iff[symmetric])

lemma in_get_all_arcs: "(i, j) \<in> set (get_all_arcs s) \<longleftrightarrow> registered s i j"
  by (force simp: get_all_arcs_def registered_lookup in_impl_of_iff[symmetric])

lemma in_row_keys: "k \<in> set (row_keys s v) \<longleftrightarrow> registered s v k"
  by (cases "DAList.lookup (constraints s) v") (auto simp: row_keys_def registered_lookup in_keys_iff)

lemma neighboring_arcs_eq:
  "get_all_neighboring_arcs s v = Inr nb \<Longrightarrow> nb = map (\<lambda>k. (k, v)) (row_keys s v)"
  by (auto simp: get_all_neighboring_arcs_def row_keys_def keys_def split: option.splits)

lemma neighboring_arcs_defined:
  "registered s v k \<Longrightarrow> \<exists>nb. get_all_neighboring_arcs s v = Inr nb"
  by (auto simp: get_all_neighboring_arcs_def registered_lookup)

lemma symmetric_keysD: "symmetric_keys s \<Longrightarrow> registered s i j \<Longrightarrow> registered s j i"
  by (force simp: symmetric_keys_def list_all_iff in_get_all_arcs[symmetric])

lemma enqueue_set:
  "get_all_neighboring_arcs s Xi = Inr nb \<Longrightarrow>
   set (enqueue Xj nb) = {(k, Xi) | k. registered s Xi k \<and> k \<noteq> Xj \<and> Xi \<noteq> Xj}"
  by (auto simp: in_row_keys dest!: neighboring_arcs_eq)






subsection \<open>Arc consistency\<close>

lemma arc_supported_iff:
  "arc_supported s a i j \<longleftrightarrow>
     (\<exists>ps Di Dj. get_constraint s i j = Inr ps \<and> DAList.lookup a i = Some Di \<and>
        DAList.lookup a j = Some Dj \<and> (\<forall>x \<in> set Di. \<exists>y \<in> set Dj. (x, y) \<in> set ps))"
  by (auto simp: arc_supported_def list_all_iff satisfies_iff split: sum.splits option.splits)

lemma arc_consistent_iff:
  "arc_consistent s a \<longleftrightarrow> (\<forall>i j. registered s i j \<longrightarrow> arc_supported s a i j)"
  by (auto simp: arc_consistent_def list_all_iff in_get_all_arcs[symmetric])

lemma converse_pairsD:
  assumes "converse_pairs s" "get_constraint s i j = Inr ps"
  shows "\<exists>qs. get_constraint s j i = Inr qs \<and> set qs = prod.swap ` set ps"
proof -
  from assms(2) have "(i, j) \<in> set (get_all_arcs s)"
    by (simp add: in_get_all_arcs registered_iff)
  with assms(1) have "case get_constraint s i j of
      Inl e \<Rightarrow> False
    | Inr ps \<Rightarrow> (case get_constraint s j i of
                   Inl e \<Rightarrow> False
                 | Inr qs \<Rightarrow> set qs = prod.swap ` set ps)"
    unfolding converse_pairs_def list_all_iff by blast
  with assms(2) show ?thesis by (simp split: sum.splits)
qed

lemma converse_pairs_symmetric:
  assumes "converse_pairs s"
  shows "symmetric_keys s"
proof -
  have "registered s j i" if "registered s i j" for i j
  proof -
    from that obtain ps where "get_constraint s i j = Inr ps" by (auto simp: registered_iff)
    from converse_pairsD[OF assms this] show ?thesis by (auto simp: registered_iff)
  qed
  then show ?thesis
    unfolding symmetric_keys_def list_all_iff by (auto simp: in_get_all_arcs)
qed

lemma no_self_arcsD: "no_self_arcs s \<Longrightarrow> registered s i j \<Longrightarrow> i \<noteq> j"
  by (force simp: no_self_arcs_def list_all_iff in_get_all_arcs[symmetric])

lemma coversD:
  "covers s a \<Longrightarrow> registered s i j \<Longrightarrow>
   (\<exists>Di. DAList.lookup a i = Some Di) \<and> (\<exists>Dj. DAList.lookup a j = Some Dj)"
  by (force simp: covers_def list_all_iff in_get_all_arcs[symmetric])

text \<open>What a revision does to the lookups.\<close>

lemma revised_lookup:
  assumes "revised s a Xi Xj = Inr (r, a1)"
  obtains c Di Dj where
    "get_constraint s Xi Xj = Inr c" "DAList.lookup a Xi = Some Di"
    "DAList.lookup a Xj = Some Dj"
    "\<And>k. DAList.lookup a1 k
            = (if k = Xi then Some (filter (satisfies c Dj) Di) else DAList.lookup a k)"
    "r = (\<exists>x \<in> set Di. \<not> satisfies c Dj x)"
proof -
  from assms obtain c Di Dj where h:
    "get_constraint s Xi Xj = Inr c" "DAList.lookup a Xi = Some Di"
    "DAList.lookup a Xj = Some Dj"
    "a1 = DAList.update Xi (filter (satisfies c Dj) Di) a"
    "r = (\<exists>x \<in> set Di. \<not> satisfies c Dj x)"
    by (rule revised_Inr)
  have "DAList.lookup a1 k
          = (if k = Xi then Some (filter (satisfies c Dj) Di) else DAList.lookup a k)" for k
    unfolding h(4) by (simp add: DAList.lookup_update)
  with h show ?thesis using that by blast
qed

lemma revised_defined:
  assumes "registered s Xi Xj" "covers s a"
  shows "\<exists>r a1. revised s a Xi Xj = Inr (r, a1)"
proof -
  from assms(1) obtain c where c: "get_constraint s Xi Xj = Inr c" by (auto simp: registered_iff)
  from coversD[OF assms(2,1)] obtain Di Dj where
    "DAList.lookup a Xi = Some Di" "DAList.lookup a Xj = Some Dj" by blast
  with c show ?thesis by (simp add: revised_def Let_def remove_all_filter)
qed

lemma revised_covers:
  assumes "revised s a Xi Xj = Inr (r, a1)" "covers s a"
  shows "covers s a1"
  using assms(1)
proof (rule revised_lookup)
  fix c Di Dj
  assume "\<And>k. DAList.lookup a1 k
            = (if k = Xi then Some (filter (satisfies c Dj) Di) else DAList.lookup a k)"
  with assms(2) show ?thesis by (auto simp: covers_def list_all_iff)
qed

text \<open>Invariants of the loop of AC-3, for the runs that return \<open>True\<close>.\<close>

lemma ac3_invariant:
  assumes run: "ac3_inference s a q = Inr (True, a')"
    and init: "I a q"
    and keep: "\<And>a q Xi Xj a1. I a (q @ [(Xi, Xj)]) \<Longrightarrow>
        revised s a Xi Xj = Inr (False, a1) \<Longrightarrow> I a1 q"
    and change: "\<And>a q Xi Xj a1 Di nb. I a (q @ [(Xi, Xj)]) \<Longrightarrow>
        revised s a Xi Xj = Inr (True, a1) \<Longrightarrow> DAList.lookup a1 Xi = Some Di \<Longrightarrow>
        Di \<noteq> [] \<Longrightarrow> get_all_neighboring_arcs s Xi = Inr nb \<Longrightarrow>
        I a1 (q @ enqueue Xj nb)"
  shows "I a' []"
  using run init
proof (induction a q rule: ac3_induct[where s = s])
  case (Nil a)
  then show ?case by (simp add: ac3_Nil)
next
  case (snoc a q Xi Xj)
  from snoc.prems(1) obtain r a1 where rv: "revised s a Xi Xj = Inr (r, a1)"
    by (auto simp: ac3_snoc split: sum.splits)
  show ?case
  proof (cases r)
    case False
    with snoc.prems(1) rv have run1: "ac3_inference s a1 q = Inr (True, a')"
      by (simp add: ac3_snoc)
    from keep[OF snoc.prems(2)] rv False have "I a1 q" by simp
    with snoc.IH(1)[OF _ run1] rv False show ?thesis by simp
  next
    case True
    with snoc.prems(1) rv obtain Di where d: "DAList.lookup a1 Xi = Some Di"
      by (auto simp: ac3_snoc split: option.splits)
    from True snoc.prems(1) rv d have ne: "Di \<noteq> []"
      by (auto simp: ac3_snoc split: if_splits)
    with True snoc.prems(1) rv d obtain nb where nb: "get_all_neighboring_arcs s Xi = Inr nb"
      by (auto simp: ac3_snoc split: sum.splits)
    with ne True snoc.prems(1) rv d
    have run1: "ac3_inference s a1 (q @ enqueue Xj nb) = Inr (True, a')"
      by (simp add: ac3_snoc)
    from change[OF snoc.prems(2) _ d ne nb] rv True have "I a1 (q @ enqueue Xj nb)" by simp
    with snoc.IH(2)[OF _ d ne nb run1] rv True show ?thesis by simp
  qed
qed

text \<open>On a table whose arcs have their two variables in the assignment and their reverse
  registered, AC-3 started on registered arcs never raises.\<close>

lemma ac3_defined:
  assumes sym: "symmetric_keys s"
  shows "covers s a \<Longrightarrow> \<forall>(i, j) \<in> set q. registered s i j \<Longrightarrow>
         \<exists>ok a'. ac3_inference s a q = Inr (ok, a')"
proof (induction a q rule: ac3_induct[where s = s])
  case (Nil a)
  show ?case by (auto simp: ac3_Nil)
next
  case (snoc a q Xi Xj)
  from snoc.prems(2) have reg: "registered s Xi Xj" and q: "\<forall>(i, j) \<in> set q. registered s i j"
    by auto
  from revised_defined[OF reg snoc.prems(1)] obtain r a1 where
    rv: "revised s a Xi Xj = Inr (r, a1)" by blast
  have cov1: "covers s a1" by (rule revised_covers[OF rv snoc.prems(1)])
  show ?case
  proof (cases r)
    case False
    with snoc.IH(1)[OF _ cov1 q] rv show ?thesis by (simp add: ac3_snoc)
  next
    case True
    from coversD[OF cov1 reg] obtain Di where d: "DAList.lookup a1 Xi = Some Di" by blast
    show ?thesis
    proof (cases "Di = []")
      case True
      with \<open>r\<close> rv d show ?thesis by (auto simp: ac3_snoc)
    next
      case ne: False
      from neighboring_arcs_defined[OF reg] obtain nb where
        nb: "get_all_neighboring_arcs s Xi = Inr nb" by blast
      have "\<forall>(i, j) \<in> set (q @ enqueue Xj nb). registered s i j"
        using q enqueue_set[OF nb, of Xj] symmetric_keysD[OF sym] by auto
      from snoc.IH(2)[OF _ d ne nb cov1 this] rv \<open>r\<close> d ne nb show ?thesis
        by (simp add: ac3_snoc)
    qed
  qed
qed

text \<open>The invariant of AC-3: every registered arc is in the queue or supported.\<close>

lemma revised_supports_arc:
  assumes rv: "revised s a Xi Xj = Inr (r, a1)" and ne: "Xi \<noteq> Xj"
  shows "arc_supported s a1 Xi Xj"
  using rv
proof (rule revised_lookup)
  fix c Di Dj
  assume "get_constraint s Xi Xj = Inr c" "DAList.lookup a Xj = Some Dj"
    "\<And>k. DAList.lookup a1 k
            = (if k = Xi then Some (filter (satisfies c Dj) Di) else DAList.lookup a k)"
  with ne show ?thesis by (auto simp: arc_supported_iff satisfies_iff)
qed

lemma revised_other_arcs:
  assumes rv: "revised s a Xi Xj = Inr (r, a1)" and "i \<noteq> Xi" "j \<noteq> Xi"
  shows "arc_supported s a1 i j = arc_supported s a i j"
  using rv
proof (rule revised_lookup)
  fix c Di Dj
  assume "\<And>k. DAList.lookup a1 k
            = (if k = Xi then Some (filter (satisfies c Dj) Di) else DAList.lookup a k)"
  with assms(2,3) show ?thesis by (simp add: arc_supported_iff)
qed

lemma revised_unchanged:
  assumes rv: "revised s a Xi Xj = Inr (False, a1)"
  shows "DAList.lookup a1 k = DAList.lookup a k"
  using rv
proof (rule revised_lookup)
  fix c Di Dj
  assume h: "DAList.lookup a Xi = Some Di"
    "\<And>k. DAList.lookup a1 k
            = (if k = Xi then Some (filter (satisfies c Dj) Di) else DAList.lookup a k)"
    "False = (\<exists>x \<in> set Di. \<not> satisfies c Dj x)"
  from h(3) have "filter (satisfies c Dj) Di = Di" by (auto simp: filter_id_conv)
  with h(1,2) show ?thesis by simp
qed

lemma revised_unchanged_arcs:
  "revised s a Xi Xj = Inr (False, a1) \<Longrightarrow> arc_supported s a1 i j = arc_supported s a i j"
  by (simp add: arc_supported_iff revised_unchanged)

lemma revised_source_arcs:
  assumes rv: "revised s a Xi Xj = Inr (r, a1)" and "j \<noteq> Xi" "arc_supported s a Xi j"
  shows "arc_supported s a1 Xi j"
  using rv
proof (rule revised_lookup)
  fix c Di Dj
  assume "DAList.lookup a Xi = Some Di"
    "\<And>k. DAList.lookup a1 k
            = (if k = Xi then Some (filter (satisfies c Dj) Di) else DAList.lookup a k)"
  with assms(2,3) show ?thesis
    by (auto simp: arc_supported_iff)
qed

lemma revised_reverse_arc:
  assumes rv: "revised s a Xi Xj = Inr (r, a1)" and ne: "Xi \<noteq> Xj"
    and conv: "converse_pairs s" and sup: "arc_supported s a Xj Xi"
  shows "arc_supported s a1 Xj Xi"
  using rv
proof (rule revised_lookup)
  fix c Di Dj
  assume h: "get_constraint s Xi Xj = Inr c" "DAList.lookup a Xi = Some Di"
    "DAList.lookup a Xj = Some Dj"
    "\<And>k. DAList.lookup a1 k
            = (if k = Xi then Some (filter (satisfies c Dj) Di) else DAList.lookup a k)"
  from converse_pairsD[OF conv h(1)] obtain c' where
    c': "get_constraint s Xj Xi = Inr c'" "set c' = prod.swap ` set c" by blast
  from sup c'(1) h(2,3) have s0: "\<forall>y \<in> set Dj. \<exists>x \<in> set Di. (y, x) \<in> set c'"
    by (simp add: arc_supported_iff)
  have "\<exists>x \<in> set (filter (satisfies c Dj) Di). (y, x) \<in> set c'" if y: "y \<in> set Dj" for y
  proof -
    from s0 y obtain x where x: "x \<in> set Di" "(y, x) \<in> set c'" by blast
    from x(2) c'(2) have "(x, y) \<in> set c" by auto
    with y have "satisfies c Dj x" by (auto simp: satisfies_iff)
    with x show ?thesis by auto
  qed
  with c'(1) h(3,4) ne show ?thesis by (simp add: arc_supported_iff)
qed

lemma ac3_arc_consistent:
  assumes conv: "converse_pairs s" and irr: "no_self_arcs s"
    and run: "ac3_inference s a q = Inr (True, a')" and init: "ac3_inv s a q"
  shows "arc_consistent s a'"
proof -
  have "ac3_inv s a' []"
    using run init
  proof (rule ac3_invariant)
    fix a q Xi Xj a1
    assume inv: "ac3_inv s a (q @ [(Xi, Xj)])" and rv: "revised s a Xi Xj = Inr (False, a1)"
    from rv have reg: "registered s Xi Xj" by (auto elim: revised_Inr simp: registered_iff)
    show "ac3_inv s a1 q"
      unfolding ac3_inv_def
    proof (intro allI impI)
      fix i j assume r: "registered s i j"
      with inv have "(i, j) \<in> set q \<or> (i, j) = (Xi, Xj) \<or> arc_supported s a i j"
        by (auto simp: ac3_inv_def)
      then show "(i, j) \<in> set q \<or> arc_supported s a1 i j"
        using revised_supports_arc[OF rv no_self_arcsD[OF irr reg]]
          revised_unchanged_arcs[OF rv, of i j]
        by auto
    qed
  next
    fix a q Xi Xj a1 Di nb
    assume inv: "ac3_inv s a (q @ [(Xi, Xj)])" and rv: "revised s a Xi Xj = Inr (True, a1)"
      and nb: "get_all_neighboring_arcs s Xi = Inr nb"
    from rv have reg: "registered s Xi Xj" by (auto elim: revised_Inr simp: registered_iff)
    have ne: "Xi \<noteq> Xj" by (rule no_self_arcsD[OF irr reg])
    show "ac3_inv s a1 (q @ enqueue Xj nb)"
      unfolding ac3_inv_def
    proof (intro allI impI)
      fix i j assume r: "registered s i j"
      have ij: "i \<noteq> j" by (rule no_self_arcsD[OF irr r])
      from r inv have c: "(i, j) \<in> set q \<or> (i, j) = (Xi, Xj) \<or> arc_supported s a i j"
        by (auto simp: ac3_inv_def)
      show "(i, j) \<in> set (q @ enqueue Xj nb) \<or> arc_supported s a1 i j"
      proof (cases "(i, j) \<in> set q \<or> (i, j) = (Xi, Xj)")
        case True
        with revised_supports_arc[OF rv ne] show ?thesis by auto
      next
        case False
        with c have sup: "arc_supported s a i j" by blast
        show ?thesis
        proof (cases "j = Xi")
          case jXi: True
          show ?thesis
          proof (cases "i = Xj")
            case True
            with jXi sup revised_reverse_arc[OF rv ne conv] show ?thesis by simp
          next
            case False
            from r jXi have "registered s Xi i"
              using symmetric_keysD[OF converse_pairs_symmetric[OF conv]] by blast
            with False ne jXi have "(i, j) \<in> set (enqueue Xj nb)"
              unfolding enqueue_set[OF nb] by simp
            then show ?thesis by simp
          qed
        next
          case jn: False
          show ?thesis
          proof (cases "i = Xi")
            case True
            with jn sup revised_source_arcs[OF rv] show ?thesis by simp
          next
            case False
            with jn sup revised_other_arcs[OF rv] show ?thesis by simp
          qed
        qed
      qed
    qed
  qed
  then show ?thesis by (simp add: ac3_inv_def arc_consistent_iff)
qed

lemma ac3_inv_all_arcs: "ac3_inv s a (get_all_arcs s)"
  by (simp add: ac3_inv_def in_get_all_arcs)

lemma sub_assignment_iff:
  "sub_assignment a' a \<longleftrightarrow>
     keys a' = keys a \<and>
     (\<forall>k d'. DAList.lookup a' k = Some d' \<longrightarrow>
        (\<exists>d. DAList.lookup a k = Some d \<and> set d' \<subseteq> set d))"
proof -
  let ?P = "\<lambda>(k, d'). case DAList.lookup a k of None \<Rightarrow> False | Some d \<Rightarrow> set d' \<subseteq> set d"
  have "(\<forall>p \<in> set (DAList.impl_of a'). ?P p) \<longleftrightarrow>
     (\<forall>k d'. DAList.lookup a' k = Some d' \<longrightarrow>
        (\<exists>d. DAList.lookup a k = Some d \<and> set d' \<subseteq> set d))"
  proof
    assume l: "\<forall>p \<in> set (DAList.impl_of a'). ?P p"
    show "\<forall>k d'. DAList.lookup a' k = Some d' \<longrightarrow>
        (\<exists>d. DAList.lookup a k = Some d \<and> set d' \<subseteq> set d)"
    proof (intro allI impI)
      fix k d' assume "DAList.lookup a' k = Some d'"
      then have "(k, d') \<in> set (DAList.impl_of a')" by (simp add: in_impl_of_iff)
      with l have "?P (k, d')" by blast
      then show "\<exists>d. DAList.lookup a k = Some d \<and> set d' \<subseteq> set d"
        by (cases "DAList.lookup a k") auto
    qed
  next
    assume r: "\<forall>k d'. DAList.lookup a' k = Some d' \<longrightarrow>
        (\<exists>d. DAList.lookup a k = Some d \<and> set d' \<subseteq> set d)"
    show "\<forall>p \<in> set (DAList.impl_of a'). ?P p"
    proof
      fix p assume p: "p \<in> set (DAList.impl_of a')"
      obtain k d' where kd: "p = (k, d')" by (cases p)
      with p have "DAList.lookup a' k = Some d'" by (simp add: in_impl_of_iff)
      with r obtain d where "DAList.lookup a k = Some d" "set d' \<subseteq> set d" by blast
      with kd show "?P p" by simp
    qed
  qed
  then show ?thesis by (simp add: sub_assignment_def list_all_iff)
qed

lemma sub_assignment_refl: "sub_assignment a a"
  by (simp add: sub_assignment_iff)

lemma sub_assignment_trans:
  "sub_assignment c b \<Longrightarrow> sub_assignment b a \<Longrightarrow> sub_assignment c a"
  unfolding sub_assignment_iff by (metis subset_trans)

lemma revised_sub_assignment:
  assumes rv: "revised s a Xi Xj = Inr (r, a1)"
  shows "sub_assignment a1 a"
  using rv
proof (rule revised_lookup)
  fix c Di Dj
  assume "DAList.lookup a Xi = Some Di"
    "\<And>k. DAList.lookup a1 k
            = (if k = Xi then Some (filter (satisfies c Dj) Di) else DAList.lookup a k)"
  with revised_keys[OF rv] show ?thesis
    by (auto simp: sub_assignment_iff split: if_splits)
qed

lemma ac3_sub_assignment:
  "ac3_inference s a q = Inr (ok, a') \<Longrightarrow> sub_assignment a' a"
  by (rule ac3_rel[where R = "\<lambda>a a'. sub_assignment a' a"])
     (auto intro: sub_assignment_refl sub_assignment_trans revised_sub_assignment)

lemma no_empty_domain_iff:
  "no_empty_domain a \<longleftrightarrow> (\<forall>k d. DAList.lookup a k = Some d \<longrightarrow> d \<noteq> [])"
  by (auto simp: no_empty_domain_def list_all_iff in_impl_of_iff[symmetric])

lemma has_empty_domain_iff:
  "has_empty_domain a \<longleftrightarrow> (\<exists>k. DAList.lookup a k = Some [])"
  by (auto simp: has_empty_domain_def list_ex_iff in_impl_of_iff[symmetric])

lemma ac3_no_empty_domain:
  assumes run: "ac3_inference s a q = Inr (True, a')" and ne: "no_empty_domain a"
  shows "no_empty_domain a'"
proof -
  have "(\<lambda>a q. no_empty_domain a) a' []"
    using run ne
  proof (rule ac3_invariant)
    fix a q Xi Xj a1
    assume "no_empty_domain a" "revised s a Xi Xj = Inr (False, a1)"
    then show "no_empty_domain a1"
      by (simp add: no_empty_domain_iff revised_unchanged)
  next
    fix a q Xi Xj a1 Di nb
    assume ne: "no_empty_domain a" and rv: "revised s a Xi Xj = Inr (True, a1)"
      and d: "DAList.lookup a1 Xi = Some Di" "Di \<noteq> []"
    from rv show "no_empty_domain a1"
    proof (rule revised_lookup)
      fix c Di' Dj
      assume "\<And>k. DAList.lookup a1 k
            = (if k = Xi then Some (filter (satisfies c Dj) Di') else DAList.lookup a k)"
      with ne d show ?thesis by (auto simp: no_empty_domain_iff split: if_splits)
    qed
  qed
  then show ?thesis .
qed

lemma ac3_False_empties:
  "ac3_inference s a q = Inr (False, a') \<Longrightarrow> has_empty_domain a'"
proof (induction a q rule: ac3_induct[where s = s])
  case (Nil a)
  then show ?case by (simp add: ac3_Nil)
next
  case (snoc a q Xi Xj)
  from snoc.prems obtain r a1 where rv: "revised s a Xi Xj = Inr (r, a1)"
    by (auto simp: ac3_snoc split: sum.splits)
  show ?case
  proof (cases r)
    case False
    with snoc.prems rv have "ac3_inference s a1 q = Inr (False, a')" by (simp add: ac3_snoc)
    from snoc.IH(1)[OF _ this] rv False show ?thesis by simp
  next
    case True
    with snoc.prems rv obtain Di where d: "DAList.lookup a1 Xi = Some Di"
      by (auto simp: ac3_snoc split: option.splits)
    show ?thesis
    proof (cases "Di = []")
      case True
      with \<open>r\<close> snoc.prems rv d have "a' = a1" by (simp add: ac3_snoc)
      with d True show ?thesis by (auto simp: has_empty_domain_iff)
    next
      case ne: False
      with \<open>r\<close> snoc.prems rv d obtain nb where nb: "get_all_neighboring_arcs s Xi = Inr nb"
        by (auto simp: ac3_snoc split: sum.splits)
      with ne \<open>r\<close> snoc.prems rv d
      have "ac3_inference s a1 (q @ enqueue Xj nb) = Inr (False, a')"
        by (simp add: ac3_snoc)
      from snoc.IH(2)[OF _ d ne nb this] rv \<open>r\<close> show ?thesis by simp
    qed
  qed
qed

text \<open>
  Claim C3, as stated, fails: the first run of AC-3, seeded with all arcs, returns
  \<open>True\<close> and leaves an assignment that is not arc-consistent when the pairs stored for
  an arc and for its reverse are not each other's reverse (\<open>not_converse\<close>), when an arc
  has no reverse registered (\<open>one_way_chain\<close>) and when a variable is constrained with
  itself (\<open>self_arc\<close>).
\<close>

theorem ac3_true_not_arc_consistent:
  "ac3_true_inconsistent not_converse \<and> ac3_true_inconsistent one_way_chain \<and>
   ac3_true_inconsistent self_arc"
  by code_simp

text \<open>
  Claim C3, amended. On a solver whose stored pairs of every arc are the reversed pairs
  of the reverse arc, with no arc from a variable to itself, and on an assignment that
  holds a domain for every variable of an arc, \<open>ac3_inference\<close> seeded with all arcs
  returns (it does not raise), and its assignment only lost values. When it returns
  \<open>True\<close> the assignment is arc-consistent: for every registered arc \<open>(Xi, Xj)\<close> and
  every \<open>x\<close> left for \<open>Xi\<close> there is a \<open>y\<close> left for \<open>Xj\<close> with \<open>(x, y)\<close> stored, and
  no domain is empty if none was. When it returns \<open>False\<close> a domain is empty. So, from
  an assignment with no empty domain, whenever no assignment obtained by removing values
  is arc-consistent with all domains non-empty, it returns \<open>False\<close>.
\<close>

theorem ac3_establishes_arc_consistency:
  "converse_pairs s \<and> no_self_arcs s \<and> covers s a \<longrightarrow>
     (\<exists>ok a'. ac3_inference s a (get_all_arcs s) = Inr (ok, a') \<and> sub_assignment a' a \<and>
        (ok \<longrightarrow> arc_consistent s a' \<and> (no_empty_domain a \<longrightarrow> no_empty_domain a')) \<and>
        (\<not> ok \<longrightarrow> has_empty_domain a') \<and>
        (no_empty_domain a \<and>
         \<not> (\<exists>b. sub_assignment b a \<and> no_empty_domain b \<and> arc_consistent s b) \<longrightarrow> \<not> ok))"
proof (intro impI)
  assume h: "converse_pairs s \<and> no_self_arcs s \<and> covers s a"
  then have conv: "converse_pairs s" and irr: "no_self_arcs s" and cov: "covers s a" by auto
  have "\<forall>(i, j) \<in> set (get_all_arcs s). registered s i j" by (auto simp: in_get_all_arcs)
  from ac3_defined[OF converse_pairs_symmetric[OF conv] cov this] obtain ok a' where
    run: "ac3_inference s a (get_all_arcs s) = Inr (ok, a')" by blast
  have sub: "sub_assignment a' a" by (rule ac3_sub_assignment[OF run])
  have ac: "arc_consistent s a'" if ok
    using ac3_arc_consistent[OF conv irr _ ac3_inv_all_arcs] run that by simp
  have ne: "no_empty_domain a'" if ok "no_empty_domain a"
    using ac3_no_empty_domain[of s a "get_all_arcs s" a'] run that by simp
  have em: "has_empty_domain a'" if "\<not> ok"
    using ac3_False_empties run that by auto
  from run sub ac ne em show "\<exists>ok a'. ac3_inference s a (get_all_arcs s) = Inr (ok, a') \<and>
        sub_assignment a' a \<and>
        (ok \<longrightarrow> arc_consistent s a' \<and> (no_empty_domain a \<longrightarrow> no_empty_domain a')) \<and>
        (\<not> ok \<longrightarrow> has_empty_domain a') \<and>
        (no_empty_domain a \<and>
         \<not> (\<exists>b. sub_assignment b a \<and> no_empty_domain b \<and> arc_consistent s b) \<longrightarrow> \<not> ok)"
    by blast
qed

theorem ac3_establishes_arc_consistency_witness:
  "converse_pairs three_clique \<and> no_self_arcs three_clique \<and>
   covers three_clique (DAList.update ''A'' [1] (domains three_clique)) \<and>
   no_empty_domain (DAList.update ''A'' [1] (domains three_clique)) \<and>
   (\<exists>a'. ac3_inference three_clique (DAList.update ''A'' [1] (domains three_clique))
            (get_all_arcs three_clique) = Inr (False, a') \<and> has_empty_domain a') \<and>
   converse_pairs all_diff_two \<and> no_self_arcs all_diff_two \<and>
   covers all_diff_two (DAList.update ''A'' [1] (domains all_diff_two)) \<and>
   (\<exists>a'. ac3_inference all_diff_two (DAList.update ''A'' [1] (domains all_diff_two))
            (get_all_arcs all_diff_two) = Inr (True, a') \<and> arc_consistent all_diff_two a' \<and>
         DAList.lookup a' ''B'' = Some [2])"
proof -
  have h3: "converse_pairs three_clique \<and> no_self_arcs three_clique \<and>
      covers three_clique (DAList.update ''A'' [1] (domains three_clique)) \<and>
      no_empty_domain (DAList.update ''A'' [1] (domains three_clique))"
    by code_simp
  have h2: "converse_pairs all_diff_two \<and> no_self_arcs all_diff_two \<and>
      covers all_diff_two (DAList.update ''A'' [1] (domains all_diff_two))"
    by code_simp
  have e3: "case ac3_inference three_clique (DAList.update ''A'' [1] (domains three_clique))
            (get_all_arcs three_clique) of Inl e \<Rightarrow> False | Inr (ok, a') \<Rightarrow> \<not> ok"
    by code_simp
  have e2: "case ac3_inference all_diff_two (DAList.update ''A'' [1] (domains all_diff_two))
            (get_all_arcs all_diff_two) of
              Inl e \<Rightarrow> False | Inr (ok, a') \<Rightarrow> ok \<and> DAList.lookup a' ''B'' = Some [2]"
    by code_simp
  from ac3_establishes_arc_consistency[of three_clique
      "DAList.update ''A'' [1] (domains three_clique)"] h3 e3
  have 3: "\<exists>a'. ac3_inference three_clique (DAList.update ''A'' [1] (domains three_clique))
            (get_all_arcs three_clique) = Inr (False, a') \<and> has_empty_domain a'"
    by (auto split: sum.splits)
  from ac3_establishes_arc_consistency[of all_diff_two
      "DAList.update ''A'' [1] (domains all_diff_two)"] h2 e2
  have 2: "\<exists>a'. ac3_inference all_diff_two (DAList.update ''A'' [1] (domains all_diff_two))
            (get_all_arcs all_diff_two) = Inr (True, a') \<and> arc_consistent all_diff_two a' \<and>
         DAList.lookup a' ''B'' = Some [2]"
    by (auto split: sum.splits)
  from h3 h2 3 2 show ?thesis by blast
qed

subsection \<open>All-different groups\<close>

lemma add_constraint_one_way_result:
  assumes "add_constraint_one_way i j f s = Inr s'"
  shows "\<exists>ps. get_constraint s' i j = Inr ps \<and> (\<forall>(x, y) \<in> set ps. f x y) \<and>
           (\<forall>ps0. get_constraint s i j = Inr ps0 \<longrightarrow> set ps \<subseteq> set ps0)"
    and "(i', j') \<noteq> (i, j) \<Longrightarrow> get_constraint s' i' j' = get_constraint s i' j'"
proof -
  from assms obtain c_i where ci: "DAList.lookup (constraints s) i = Some c_i"
    by (auto simp: add_constraint_one_way_def split: option.splits)
  show "\<exists>ps. get_constraint s' i j = Inr ps \<and> (\<forall>(x, y) \<in> set ps. f x y) \<and>
           (\<forall>ps0. get_constraint s i j = Inr ps0 \<longrightarrow> set ps \<subseteq> set ps0)"
  proof (cases "DAList.lookup c_i j")
    case None
    with assms ci show ?thesis
      by (auto simp: add_constraint_one_way_def set_constraint_def get_constraint_def
            DAList.lookup_update split: option.splits sum.splits)
  next
    case (Some ps0)
    with assms ci show ?thesis
      by (auto simp: add_constraint_one_way_def set_constraint_def get_constraint_def
            DAList.lookup_update split: option.splits sum.splits)
  qed
  show "get_constraint s' i' j' = get_constraint s i' j'" if "(i', j') \<noteq> (i, j)"
  proof (cases "DAList.lookup c_i j")
    case None
    with assms ci that show ?thesis
      by (auto simp: add_constraint_one_way_def set_constraint_def get_constraint_def
            DAList.lookup_update split: option.splits sum.splits if_splits)
  next
    case (Some ps0)
    with assms ci that show ?thesis
      by (auto simp: add_constraint_one_way_def set_constraint_def get_constraint_def
            DAList.lookup_update split: option.splits sum.splits if_splits)
  qed
qed

lemma differ_only_kept:
  assumes "add_constraint_one_way i j f s = Inr s'" "differ_only s i' j'"
  shows "differ_only s' i' j'"
proof (cases "(i', j') = (i, j)")
  case True
  from assms(2) True obtain ps0 where p0: "get_constraint s i j = Inr ps0"
    "\<forall>(x, y) \<in> set ps0. x \<noteq> y"
    by (auto simp: differ_only_def list_all_iff split: sum.splits)
  from add_constraint_one_way_result(1)[OF assms(1)] p0(1) obtain ps where
    "get_constraint s' i j = Inr ps" "set ps \<subseteq> set ps0" by blast
  with p0(2) True show ?thesis by (auto simp: differ_only_def list_all_iff)
next
  case False
  from add_constraint_one_way_result(2)[OF assms(1) False] assms(2) show ?thesis
    by (simp add: differ_only_def)
qed

lemma differ_only_added:
  assumes "add_constraint_one_way i j (\<lambda>x y. x \<noteq> y) s = Inr s'"
  shows "differ_only s' i j"
  using add_constraint_one_way_result(1)[OF assms]
  by (auto simp: differ_only_def list_all_iff)

lemma add_all_different_loop_result:
  "add_all_different_loop arcs s = Inr s' \<Longrightarrow>
   (\<forall>(i, j) \<in> set arcs. i \<noteq> j \<longrightarrow> differ_only s' i j) \<and>
   (\<forall>i j. differ_only s i j \<longrightarrow> differ_only s' i j)"
proof (induction arcs s rule: add_all_different_loop.induct)
  case (1 s)
  then show ?case by simp
next
  case (2 i j rest s)
  show ?case
  proof (cases "i = j")
    case True
    with 2 show ?thesis by auto
  next
    case False
    with "2.prems" obtain s1 where s1: "add_constraint_one_way i j (\<lambda>x y. x \<noteq> y) s = Inr s1"
      and rest: "add_all_different_loop rest s1 = Inr s'"
      by (auto split: sum.splits)
    from "2.IH"(1)[OF False s1 rest] have
      ih: "\<forall>(i, j) \<in> set rest. i \<noteq> j \<longrightarrow> differ_only s' i j"
        "\<forall>i j. differ_only s1 i j \<longrightarrow> differ_only s' i j" by auto
    from differ_only_added[OF s1] ih(2) have "differ_only s' i j" by blast
    moreover have "\<forall>i j. differ_only s i j \<longrightarrow> differ_only s' i j"
      using differ_only_kept[OF s1] ih(2) by blast
    ultimately show ?thesis using ih(1) by auto
  qed
qed

lemma all_different_registeredI:
  "add_all_different_constraint var_list s = Inr s' \<Longrightarrow> all_different_registered s' var_list"
  unfolding add_all_different_constraint_def get_all_possible_pairs_def
    all_different_registered_def list_all_iff
  by (drule add_all_different_loop_result) auto

lemma all_different_registered_kept:
  "all_different_registered s var_list \<Longrightarrow> add_constraint_one_way i j f s = Inr s' \<Longrightarrow>
   all_different_registered s' var_list"
  unfolding all_different_registered_def list_all_iff
  by (auto dest: differ_only_kept)

lemma all_different_registered_kept_all_different:
  "all_different_registered s var_list \<Longrightarrow> add_all_different_constraint vs s = Inr s' \<Longrightarrow>
   all_different_registered s' var_list"
proof -
  assume a: "all_different_registered s var_list"
    and b: "add_all_different_constraint vs s = Inr s'"
  from b have "\<forall>i j. differ_only s i j \<longrightarrow> differ_only s' i j"
    unfolding add_all_different_constraint_def by (blast dest: add_all_different_loop_result)
  with a show ?thesis
    unfolding all_different_registered_def list_all_iff by fastforce
qed

text \<open>AC-3 reads the constraint table only.\<close>

lemma counters_only_get_constraint:
  "counters_only s t \<Longrightarrow> get_constraint t i j = get_constraint s i j"
  by (simp add: counters_only_def get_constraint_def)

lemma counters_only_get_all_arcs: "counters_only s t \<Longrightarrow> get_all_arcs t = get_all_arcs s"
  by (simp add: counters_only_def get_all_arcs_def)

lemma counters_only_revised: "counters_only s t \<Longrightarrow> revised t a Xi Xj = revised s a Xi Xj"
  by (simp add: revised_def counters_only_get_constraint)

lemma counters_only_neighbors:
  "counters_only s t \<Longrightarrow> get_all_neighboring_arcs t v = get_all_neighboring_arcs s v"
  by (simp add: counters_only_def get_all_neighboring_arcs_def)

lemma counters_only_ac3:
  assumes c: "counters_only s t"
  shows "ac3_inference t a q = ac3_inference s a q"
proof (induction a q rule: ac3_induct[where s = s])
  case (Nil a)
  show ?case by (simp add: ac3_Nil)
next
  case (snoc a q Xi Xj)
  show ?case
  proof (cases "revised s a Xi Xj")
    case (Inl e)
    then show ?thesis by (simp add: ac3_snoc counters_only_revised[OF c])
  next
    case (Inr p)
    obtain r a1 where p: "p = (r, a1)" by (cases p)
    show ?thesis
    proof (cases r)
      case False
      with snoc.IH(1)[of a1] Inr p show ?thesis
        by (simp add: ac3_snoc counters_only_revised[OF c])
    next
      case True
      show ?thesis
      proof (cases "DAList.lookup a1 Xi")
        case None
        with True Inr p show ?thesis by (simp add: ac3_snoc counters_only_revised[OF c])
      next
        case (Some Di)
        show ?thesis
        proof (cases "Di = []")
          case True
          with \<open>r\<close> Inr p Some show ?thesis by (simp add: ac3_snoc counters_only_revised[OF c])
        next
          case ne: False
          show ?thesis
          proof (cases "get_all_neighboring_arcs s Xi")
            case (Inl e)
            with ne \<open>r\<close> Inr p Some show ?thesis
              by (simp add: ac3_snoc counters_only_revised[OF c] counters_only_neighbors[OF c])
          next
            case nb: (Inr nb)
            with snoc.IH(2)[of a1 Di nb] ne \<open>r\<close> Inr p Some show ?thesis
              by (simp add: ac3_snoc counters_only_revised[OF c] counters_only_neighbors[OF c])
          qed
        qed
      qed
    qed
  qed
qed

text \<open>An assignment that the search returns is complete, and it is the assignment the
  search started from or the result of a run of AC-3 that began with all arcs and
  returned \<open>True\<close>.\<close>

lemma ac3_result_counters: "counters_only s t \<Longrightarrow> ac3_result t a = ac3_result s a"
  by (simp add: ac3_result_def counters_only_ac3 counters_only_get_all_arcs)

lemma backtrack_returns:
  "\<forall>s' asg. backtrack s a = (s', Inr (Some asg)) \<longrightarrow>
     hasCompletedThe asg \<and> (asg = a \<or> ac3_result s asg)"
  "\<forall>s' asg. backtrack_loop s a Xi ds = (s', Inr (Some asg)) \<longrightarrow>
     hasCompletedThe asg \<and> ac3_result s asg"
proof (induction s a and s a Xi ds rule: backtrack_induct)
  case (backtrack s a)
  show ?case
  proof (intro allI impI)
    fix s' asg assume "backtrack s a = (s', Inr (Some asg))"
    then show "hasCompletedThe asg \<and> (asg = a \<or> ac3_result s asg)"
    proof (cases rule: backtrack_cases)
      case complete
      then show ?thesis by simp
    next
      case stuck
      then show ?thesis by simp
    next
      case (loop Xi cands)
      from backtrack.IH[OF loop(1,2,3)] loop(4)
      have "hasCompletedThe asg \<and> ac3_result (s\<lparr>numCalls := numCalls s + 1\<rparr>) asg" by blast
      moreover have "counters_only s (s\<lparr>numCalls := numCalls s + 1\<rparr>)"
        by (simp add: counters_only_def)
      ultimately show ?thesis by (simp add: ac3_result_counters)
    qed
  qed
next
  case (Nil s a Xi)
  show ?case by simp
next
  case (Cons s a Xi Di rest)
  show ?case
  proof (intro allI impI)
    fix s' asg assume "backtrack_loop s a Xi (Di # rest) = (s', Inr (Some asg))"
    then show "hasCompletedThe asg \<and> ac3_result s asg"
    proof (cases rule: backtrack_loop_cases)
      case (error e)
      then show ?thesis by simp
    next
      case (pruned a')
      with Cons.IH(3) show ?thesis by blast
    next
      case (found a' res)
      then have "res = asg" by simp
      with found Cons.IH(1)[OF found(1)]
      have "hasCompletedThe asg \<and> (asg = a' \<or> ac3_result s asg)" by blast
      with found(1) show ?thesis by (auto simp: ac3_result_def)
    next
      case (raised a' e)
      then show ?thesis by simp
    next
      case (exhausted a' s1)
      from Cons.IH(2)[OF exhausted(1,2)] exhausted(3)
      have "hasCompletedThe asg \<and> ac3_result s1 asg" by blast
      moreover from backtrack_frame(1)[of s a'] exhausted(2) have "counters_only s s1" by blast
      ultimately show ?thesis by (simp add: ac3_result_counters)
    qed
  qed
qed

lemma hasCompletedThe_iff:
  "hasCompletedThe a \<longleftrightarrow> (\<forall>k d. DAList.lookup a k = Some d \<longrightarrow> length d = 1)"
  unfolding hasCompletedThe_def hasCompleted_items_iff in_impl_of_iff[symmetric]
  by auto

lemma backtracking_search_returns:
  assumes "backtracking_search s = (s', Inr (Some asg))"
  shows "hasCompletedThe asg \<and> ac3_result s asg"
proof -
  from assms obtain ok a0 where
    run: "ac3_inference s (domains s) (get_all_arcs s) = Inr (ok, a0)" and
    b: "backtrack s a0 = (s', Inr (Some asg))"
    by (auto simp: backtracking_search_def split: sum.splits)
  from backtrack_returns(1)[of s a0] b
  have c: "hasCompletedThe asg" and d: "asg = a0 \<or> ac3_result s asg" by blast+
  show ?thesis
  proof (cases ok)
    case True
    with run d c show ?thesis by (auto simp: ac3_result_def)
  next
    case False
    have "asg \<noteq> a0"
    proof
      assume "asg = a0"
      with run False have "has_empty_domain asg" by (auto dest: ac3_False_empties)
      with c show False by (fastforce simp: has_empty_domain_iff hasCompletedThe_iff)
    qed
    with c d show ?thesis by simp
  qed
qed

lemma revised_registered: "revised s a Xi Xj = Inr (r, a1) \<Longrightarrow> registered s Xi Xj"
  by (auto elim: revised_Inr simp: registered_iff)

lemma ac3_pair_supported:
  assumes ij: "registered s i j" and ji: "registered s j i" and ne: "i \<noteq> j"
    and ii: "\<not> registered s i i" and jj: "\<not> registered s j j"
    and run: "ac3_inference s a q = Inr (True, a')" and init: "pair_inv s i j a q"
  shows "arc_supported s a' i j \<or> arc_supported s a' j i"
proof -
  have "pair_inv s i j a' []"
    using run init
  proof (rule ac3_invariant)
    fix a q Xi Xj a1
    assume inv: "pair_inv s i j a (q @ [(Xi, Xj)])" and rv: "revised s a Xi Xj = Inr (False, a1)"
    show "pair_inv s i j a1 q"
    proof (cases "(Xi, Xj) = (i, j) \<or> (Xi, Xj) = (j, i)")
      case True
      with revised_supports_arc[OF rv] ne show ?thesis by (auto simp: pair_inv_def)
    next
      case False
      with inv show ?thesis
        by (auto simp: pair_inv_def revised_unchanged_arcs[OF rv])
    qed
  next
    fix a q Xi Xj a1 Di nb
    assume inv: "pair_inv s i j a (q @ [(Xi, Xj)])" and rv: "revised s a Xi Xj = Inr (True, a1)"
      and nb: "get_all_neighboring_arcs s Xi = Inr nb"
    have reg: "registered s Xi Xj" by (rule revised_registered[OF rv])
    show "pair_inv s i j a1 (q @ enqueue Xj nb)"
    proof (cases "(Xi, Xj) = (i, j) \<or> (Xi, Xj) = (j, i)")
      case True
      with revised_supports_arc[OF rv] ne show ?thesis by (auto simp: pair_inv_def)
    next
      case other: False
      show ?thesis
      proof (cases "(i, j) \<in> set q \<or> (j, i) \<in> set q")
        case True
        then show ?thesis by (auto simp: pair_inv_def)
      next
        case False
        with inv other have sup: "arc_supported s a i j \<or> arc_supported s a j i"
          by (auto simp: pair_inv_def)
        show ?thesis
        proof (cases "Xi = i")
          case True
          with reg ii other have "Xj \<noteq> i" "Xj \<noteq> j" by auto
          with True ij have "(j, i) \<in> set (enqueue Xj nb)"
            unfolding enqueue_set[OF nb] by auto
          then show ?thesis by (simp add: pair_inv_def)
        next
          case ni: False
          show ?thesis
          proof (cases "Xi = j")
            case True
            with reg jj other have "Xj \<noteq> j" "Xj \<noteq> i" by auto
            with True ji have "(i, j) \<in> set (enqueue Xj nb)"
              unfolding enqueue_set[OF nb] by auto
            then show ?thesis by (simp add: pair_inv_def)
          next
            case False
            with ni sup revised_other_arcs[OF rv, of i j] revised_other_arcs[OF rv, of j i]
            show ?thesis by (auto simp: pair_inv_def)
          qed
        qed
      qed
    qed
  qed
  then show ?thesis by (simp add: pair_inv_def)
qed

lemma differ_only_registered: "differ_only s i j \<Longrightarrow> registered s i j"
  by (auto simp: differ_only_def registered_def split: sum.splits)

lemma supported_complete_differ:
  assumes sup: "arc_supported s a i j" and d: "differ_only s i j" and c: "hasCompletedThe a"
  shows "\<exists>x y. DAList.lookup a i = Some [x] \<and> DAList.lookup a j = Some [y] \<and> x \<noteq> y"
proof -
  from sup obtain ps Di Dj where h: "get_constraint s i j = Inr ps"
    "DAList.lookup a i = Some Di" "DAList.lookup a j = Some Dj"
    "\<forall>x \<in> set Di. \<exists>y \<in> set Dj. (x, y) \<in> set ps"
    by (auto simp: arc_supported_iff)
  from c h(2,3) have "length Di = 1" "length Dj = 1" by (auto simp: hasCompletedThe_iff)
  then obtain x y where xy: "Di = [x]" "Dj = [y]"
    by (cases Di; cases Dj) auto
  with h(4) have "(x, y) \<in> set ps" by simp
  with d h(1) have "x \<noteq> y" by (auto simp: differ_only_def list_all_iff)
  with h(2,3) xy show ?thesis by simp
qed

lemma search_distinct_pair:
  assumes ij: "differ_only s i j" and ji: "differ_only s j i" and ne: "i \<noteq> j"
    and ii: "\<not> registered s i i" and jj: "\<not> registered s j j"
    and res: "backtracking_search s = (s', Inr (Some asg))"
  shows "\<exists>x y. DAList.lookup asg i = Some [x] \<and> DAList.lookup asg j = Some [y] \<and> x \<noteq> y"
proof -
  from backtracking_search_returns[OF res] obtain b where
    c: "hasCompletedThe asg" and run: "ac3_inference s b (get_all_arcs s) = Inr (True, asg)"
    by (auto simp: ac3_result_def)
  have "pair_inv s i j b (get_all_arcs s)"
    using differ_only_registered[OF ij] by (simp add: pair_inv_def in_get_all_arcs)
  from ac3_pair_supported[OF differ_only_registered[OF ij] differ_only_registered[OF ji]
      ne ii jj run this]
  show ?thesis
  proof
    assume "arc_supported s asg i j"
    from supported_complete_differ[OF this ij c] show ?thesis .
  next
    assume "arc_supported s asg j i"
    from supported_complete_differ[OF this ji c] show ?thesis by blast
  qed
qed

lemma the_solver_Inr: "(case r of Inl e \<Rightarrow> False | Inr s \<Rightarrow> True) \<Longrightarrow> r = Inr (the_solver r)"
  by (cases r) (simp_all add: the_solver_def)

text \<open>
  Without a constraint of a group variable with itself the values are distinct, whatever
  else the table holds: \<open>add_all_different_constraint\<close> registers, for every ordered pair
  of distinct variables of its list, an arc whose stored pairs all have different
  components, later calls of \<open>add_constraint_one_way\<close> and
  \<open>add_all_different_constraint\<close> keep that, and any assignment returned by
  \<open>backtracking_search\<close> then gives the variables of the group single, pairwise
  distinct values.
\<close>

lemma all_different_values_distinct:
  "(add_all_different_constraint var_list s0 = Inr s \<longrightarrow> all_different_registered s var_list) \<and>
   (all_different_registered s var_list \<and> add_constraint_one_way i j f s = Inr s1 \<longrightarrow>
      all_different_registered s1 var_list) \<and>
   (all_different_registered s var_list \<and> add_all_different_constraint vs s = Inr s2 \<longrightarrow>
      all_different_registered s2 var_list) \<and>
   (all_different_registered s var_list \<and> no_self_arc_on s var_list \<and>
    backtracking_search s = (s', Inr (Some asg)) \<longrightarrow>
      hasCompletedThe asg \<and> distinct_values asg var_list)"
proof -
  have "hasCompletedThe asg \<and> distinct_values asg var_list"
    if reg: "all_different_registered s var_list" and irr: "no_self_arc_on s var_list"
      and res: "backtracking_search s = (s', Inr (Some asg))"
  proof -
    have "case DAList.lookup asg i of
            Some [x] \<Rightarrow> (case DAList.lookup asg j of Some [y] \<Rightarrow> x \<noteq> y | _ \<Rightarrow> False)
          | _ \<Rightarrow> False"
      if m: "i \<in> set var_list" "j \<in> set var_list" and ne: "i \<noteq> j" for i j
    proof -
      from reg m ne have "differ_only s i j" "differ_only s j i"
        by (auto simp: all_different_registered_def list_all_iff)
      moreover from irr m have "\<not> registered s i i" "\<not> registered s j j"
        by (auto simp: no_self_arc_on_def list_all_iff)
      ultimately obtain x y where
        "DAList.lookup asg i = Some [x]" "DAList.lookup asg j = Some [y]" "x \<noteq> y"
        using search_distinct_pair[OF _ _ ne _ _ res] by blast
      then show ?thesis by simp
    qed
    then have "distinct_values asg var_list"
      unfolding distinct_values_def list_all_iff by auto
    with backtracking_search_returns[OF res] show ?thesis by simp
  qed
  with all_different_registeredI[of var_list s0 s]
    all_different_registered_kept[of s var_list i j f s1]
    all_different_registered_kept_all_different[of s var_list vs s2]
  show ?thesis by blast
qed

lemma all_different_values_distinct_on_two:
  "add_all_different_constraint [''A'', ''B'']
     (add_variable ''B'' [1, 2] (add_variable ''A'' [1, 2] Solver_init)) = Inr all_diff_two \<and>
   all_different_registered all_diff_two [''A'', ''B''] \<and>
   no_self_arc_on all_diff_two [''A'', ''B''] \<and>
   (\<exists>s' asg. backtracking_search all_diff_two = (s', Inr (Some asg)) \<and>
      distinct_values asg [''A'', ''B''] \<and>
      DAList.lookup asg ''A'' = Some [1] \<and> DAList.lookup asg ''B'' = Some [2])"
proof -
  have "case add_all_different_constraint [''A'', ''B'']
          (add_variable ''B'' [1, 2] (add_variable ''A'' [1, 2] (Solver_init :: nat solver))) of
          Inl e \<Rightarrow> False | Inr s \<Rightarrow> True"
    by code_simp
  from the_solver_Inr[OF this]
  have b: "add_all_different_constraint [''A'', ''B'']
     (add_variable ''B'' [1, 2] (add_variable ''A'' [1, 2] Solver_init)) = Inr all_diff_two"
    by (simp add: all_diff_two_def)
  have irr: "no_self_arc_on all_diff_two [''A'', ''B'']" by code_simp
  have "case backtracking_search all_diff_two of
          (s', Inr (Some asg)) \<Rightarrow>
             DAList.lookup asg ''A'' = Some [1] \<and> DAList.lookup asg ''B'' = Some [2]
        | _ \<Rightarrow> False"
    by code_simp
  then obtain s' asg where r: "backtracking_search all_diff_two = (s', Inr (Some asg))"
    "DAList.lookup asg ''A'' = Some [1]" "DAList.lookup asg ''B'' = Some [2]"
    by (auto split: prod.splits sum.splits option.splits)
  from all_different_values_distinct[of "[''A'', ''B'']"
      "add_variable ''B'' [1, 2] (add_variable ''A'' [1, 2] Solver_init)" all_diff_two
      "''A''" "''B''" "\<lambda>x y. True" all_diff_two "[]" all_diff_two s' asg] b irr r(1)
  have "all_different_registered all_diff_two [''A'', ''B''] \<and>
      distinct_values asg [''A'', ''B'']"
    by simp
  with b irr r show ?thesis by blast
qed

text \<open>
  Claim C9 (what the code does on the inputs where it departs from the claim). In
  \<open>all_diff_self_arcs\<close> the group \<open>A\<close>, \<open>B\<close> is registered with
  \<open>add_all_different_constraint\<close>: the table holds exactly the pairs of different
  values for \<open>(A, B)\<close> and for \<open>(B, A)\<close>, every constraint of the table is registered
  in both directions with the reversed pairs, and every variable of an arc has a domain.
  \<open>backtracking_search\<close> returns, after one call of \<open>backtrack\<close>, an assignment that
  gives \<open>A\<close> and \<open>B\<close> the same value 1. Both variables have a constraint with
  themselves: when AC-3 has revised the arc \<open>(B, B)\<close> and removed a value of \<open>B\<close>, the
  test \<open>Xj not in neighbor_arc\<close> rejects every arc \<open>(k, B)\<close>, since each of them
  contains \<open>B\<close>, so \<open>(A, B)\<close> is not looked at again; the same happens for \<open>A\<close>. The
  same is seen on \<open>all_diff_self_arc\<close>, where only \<open>B\<close> has a constraint with itself.
\<close>

theorem all_different_violated_with_self_arc:
  "all_different_registered all_diff_self_arcs [''A'', ''B''] \<and>
   get_constraint all_diff_self_arcs ''A'' ''B''
     = Inr [(1, 2), (1, 3), (2, 1), (2, 3), (3, 1), (3, 2)] \<and>
   get_constraint all_diff_self_arcs ''B'' ''A''
     = Inr [(1, 2), (1, 3), (2, 1), (2, 3), (3, 1), (3, 2)] \<and>
   converse_pairs all_diff_self_arcs \<and>
   covers all_diff_self_arcs (domains all_diff_self_arcs) \<and>
   map_sum id (map_option items) (snd (backtracking_search all_diff_self_arcs))
     = Inr (Some [(''X'', [1]), (''C'', [1]), (''A'', [1]), (''B'', [1])]) \<and>
   numCalls (fst (backtracking_search all_diff_self_arcs)) = 1 \<and>
   \<not> no_self_arc_on all_diff_self_arcs [''A'', ''B''] \<and>
   all_different_registered all_diff_self_arc [''A'', ''B''] \<and>
   map_sum id (map_option items) (snd (backtracking_search all_diff_self_arc))
     = Inr (Some [(''B'', [1]), (''A'', [1]), (''C'', [1])]) \<and>
   \<not> no_self_arc_on all_diff_self_arc [''A'', ''B'']"
  by code_simp

subsection \<open>Solutions and the search\<close>

lemma inside_iff: "inside \<sigma> a \<longleftrightarrow> (\<forall>k d. DAList.lookup a k = Some d \<longrightarrow> \<sigma> k \<in> set d)"
  unfolding inside_def list_all_iff in_impl_of_iff[symmetric] by auto

lemma solves_iff:
  "solves s \<sigma> \<longleftrightarrow>
     inside \<sigma> (domains s) \<and>
     (\<forall>i j ps. get_constraint s i j = Inr ps \<longrightarrow> (\<sigma> i, \<sigma> j) \<in> set ps)"
proof -
  have "list_all (\<lambda>(i, j). case get_constraint s i j of
                           Inr ps \<Rightarrow> (\<sigma> i, \<sigma> j) \<in> set ps
                         | Inl e \<Rightarrow> False) (get_all_arcs s) \<longleftrightarrow>
    (\<forall>i j ps. get_constraint s i j = Inr ps \<longrightarrow> (\<sigma> i, \<sigma> j) \<in> set ps)"
  proof
    assume l: "list_all (\<lambda>(i, j). case get_constraint s i j of
                           Inr ps \<Rightarrow> (\<sigma> i, \<sigma> j) \<in> set ps
                         | Inl e \<Rightarrow> False) (get_all_arcs s)"
    show "\<forall>i j ps. get_constraint s i j = Inr ps \<longrightarrow> (\<sigma> i, \<sigma> j) \<in> set ps"
    proof (intro allI impI)
      fix i j ps assume g: "get_constraint s i j = Inr ps"
      then have "(i, j) \<in> set (get_all_arcs s)" by (simp add: in_get_all_arcs registered_iff)
      with l g show "(\<sigma> i, \<sigma> j) \<in> set ps" by (auto simp: list_all_iff)
    qed
  next
    assume "\<forall>i j ps. get_constraint s i j = Inr ps \<longrightarrow> (\<sigma> i, \<sigma> j) \<in> set ps"
    then show "list_all (\<lambda>(i, j). case get_constraint s i j of
                           Inr ps \<Rightarrow> (\<sigma> i, \<sigma> j) \<in> set ps
                         | Inl e \<Rightarrow> False) (get_all_arcs s)"
      by (auto simp: list_all_iff in_get_all_arcs registered_iff split: sum.splits)
  qed
  then show ?thesis by (simp add: solves_def inside_def)
qed

text \<open>The public methods keep every variable of an arc among the variables that have a
  domain.\<close>

lemma add_constraint_one_way_domains:
  "add_constraint_one_way i j f s = Inr s' \<Longrightarrow> domains s' = domains s"
  by (auto simp: add_constraint_one_way_def set_constraint_def get_constraint_def
           split: option.splits sum.splits if_splits)

lemma add_constraint_one_way_registers:
  assumes "add_constraint_one_way i j f s = Inr s'" "\<not> registered s i j"
  shows "DAList.lookup (domains s) i \<noteq> None \<and> DAList.lookup (domains s) j \<noteq> None"
  using assms
  by (auto simp: add_constraint_one_way_def registered_lookup split: option.splits if_splits)

lemma covers_iff:
  "covers s a \<longleftrightarrow>
     (\<forall>i j. registered s i j \<longrightarrow> DAList.lookup a i \<noteq> None \<and> DAList.lookup a j \<noteq> None)"
proof
  assume "covers s a"
  then show "\<forall>i j. registered s i j \<longrightarrow>
      DAList.lookup a i \<noteq> None \<and> DAList.lookup a j \<noteq> None"
    using coversD[of s a] by fastforce
next
  assume "\<forall>i j. registered s i j \<longrightarrow>
      DAList.lookup a i \<noteq> None \<and> DAList.lookup a j \<noteq> None"
  then show "covers s a"
    unfolding covers_def list_all_iff by (auto simp: in_get_all_arcs)
qed

lemma covers_add_constraint_one_way:
  assumes c: "covers s (domains s)" and a: "add_constraint_one_way i j f s = Inr s'"
  shows "covers s' (domains s')"
  unfolding covers_iff
proof (intro allI impI)
  fix i' j' assume r: "registered s' i' j'"
  show "DAList.lookup (domains s') i' \<noteq> None \<and> DAList.lookup (domains s') j' \<noteq> None"
  proof (cases "registered s i' j'")
    case True
    with c show ?thesis by (simp add: covers_iff add_constraint_one_way_domains[OF a])
  next
    case False
    have "(i', j') = (i, j)"
    proof (rule ccontr)
      assume "(i', j') \<noteq> (i, j)"
      from add_constraint_one_way_result(2)[OF a this] r False show False
        by (simp add: registered_def)
    qed
    with add_constraint_one_way_registers[OF a] False show ?thesis
      by (simp add: add_constraint_one_way_domains[OF a])
  qed
qed

lemma covers_add_all_different_loop:
  "add_all_different_loop arcs s = Inr s' \<Longrightarrow> covers s (domains s) \<Longrightarrow>
   covers s' (domains s')"
proof (induction arcs s rule: add_all_different_loop.induct)
  case (1 s)
  then show ?case by simp
next
  case (2 i j rest s)
  show ?case
  proof (cases "i = j")
    case True
    with 2 show ?thesis by simp
  next
    case False
    with "2.prems"(1) obtain s1 where s1: "add_constraint_one_way i j (\<lambda>x y. x \<noteq> y) s = Inr s1"
      and rest: "add_all_different_loop rest s1 = Inr s'"
      by (auto split: sum.splits)
    from "2.IH"(1)[OF False s1 rest covers_add_constraint_one_way[OF "2.prems"(2) s1]]
    show ?thesis .
  qed
qed

lemma registered_add_variable:
  "registered (add_variable name domain s) i j \<Longrightarrow> registered s i j \<and> i \<noteq> name"
  by (auto simp: registered_lookup add_variable_def DAList.lookup_update split: if_splits)

lemma built_covers: "built s \<Longrightarrow> covers s (domains s)"
proof (induction rule: built.induct)
  case init
  show ?case by (simp add: covers_def get_all_arcs_def Solver_init_def DAList.empty.rep_eq)
next
  case (variable s name domain)
  show ?case
    unfolding covers_iff
  proof (intro allI impI)
    fix i j assume "registered (add_variable name domain s) i j"
    then have "registered s i j" by (blast dest: registered_add_variable)
    with variable.IH show "DAList.lookup (domains (add_variable name domain s)) i \<noteq> None \<and>
        DAList.lookup (domains (add_variable name domain s)) j \<noteq> None"
      by (auto simp: covers_iff add_variable_def DAList.lookup_update)
  qed
next
  case (one_way s i j f s')
  then show ?case by (blast intro: covers_add_constraint_one_way)
next
  case (all_different s var_list s')
  then show ?case
    unfolding add_all_different_constraint_def by (blast intro: covers_add_all_different_loop)
qed

text \<open>AC-3 keeps every solution: a valuation that the constraints allow stays inside the
  domains, so the run returns \<open>True\<close>.\<close>

lemma revised_inside:
  assumes al: "allows s \<sigma>" and ins: "inside \<sigma> a" and rv: "revised s a Xi Xj = Inr (r, a1)"
  shows "inside \<sigma> a1"
  using rv
proof (rule revised_lookup)
  fix c Di Dj
  assume h: "get_constraint s Xi Xj = Inr c" "DAList.lookup a Xi = Some Di"
    "DAList.lookup a Xj = Some Dj"
    "\<And>k. DAList.lookup a1 k
            = (if k = Xi then Some (filter (satisfies c Dj) Di) else DAList.lookup a k)"
  from al h(1) have "(\<sigma> Xi, \<sigma> Xj) \<in> set c" by (simp add: allows_def)
  moreover from ins h(2,3) have "\<sigma> Xi \<in> set Di" "\<sigma> Xj \<in> set Dj" by (auto simp: inside_iff)
  ultimately have "\<sigma> Xi \<in> set (filter (satisfies c Dj) Di)"
    by (auto simp: satisfies_iff)
  with ins h(4) show ?thesis by (auto simp: inside_iff split: if_splits)
qed

lemma ac3_keeps_solution:
  assumes al: "allows s \<sigma>"
  shows "inside \<sigma> a \<Longrightarrow> ac3_inference s a q = Inr (ok, a') \<Longrightarrow> ok \<and> inside \<sigma> a'"
proof (induction a q rule: ac3_induct[where s = s])
  case (Nil a)
  then show ?case by (simp add: ac3_Nil)
next
  case (snoc a q Xi Xj)
  from snoc.prems(2) obtain r a1 where rv: "revised s a Xi Xj = Inr (r, a1)"
    by (auto simp: ac3_snoc split: sum.splits)
  have ins1: "inside \<sigma> a1" by (rule revised_inside[OF al snoc.prems(1) rv])
  show ?case
  proof (cases r)
    case False
    with snoc.prems(2) rv have "ac3_inference s a1 q = Inr (ok, a')" by (simp add: ac3_snoc)
    from snoc.IH(1)[OF _ ins1 this] rv False show ?thesis by simp
  next
    case True
    with snoc.prems(2) rv obtain Di where d: "DAList.lookup a1 Xi = Some Di"
      by (auto simp: ac3_snoc split: option.splits)
    with ins1 have ne: "Di \<noteq> []" by (fastforce simp: inside_iff)
    with True snoc.prems(2) rv d obtain nb where nb: "get_all_neighboring_arcs s Xi = Inr nb"
      by (auto simp: ac3_snoc split: sum.splits)
    with ne True snoc.prems(2) rv d
    have "ac3_inference s a1 (q @ enqueue Xj nb) = Inr (ok, a')" by (simp add: ac3_snoc)
    from snoc.IH(2)[OF _ d ne nb ins1 this] rv True show ?thesis by simp
  qed
qed

lemma inside_no_empty_domain: "inside \<sigma> a \<Longrightarrow> no_empty_domain a"
  by (fastforce simp: inside_iff no_empty_domain_iff)

text \<open>The conditions on the table do not look at the counters.\<close>

lemma counters_only_registered: "counters_only s t \<Longrightarrow> registered t i j = registered s i j"
  by (simp add: registered_def counters_only_get_constraint)

lemma counters_only_covers: "counters_only s t \<Longrightarrow> covers t a = covers s a"
  by (simp add: covers_iff counters_only_registered)

lemma counters_only_symmetric_keys:
  "counters_only s t \<Longrightarrow> symmetric_keys t = symmetric_keys s"
  by (simp add: symmetric_keys_def counters_only_get_all_arcs counters_only_registered)

lemma counters_only_allows: "counters_only s t \<Longrightarrow> allows t \<sigma> = allows s \<sigma>"
  by (simp add: allows_def counters_only_get_constraint)

lemma covers_keys: "keys a' = keys a \<Longrightarrow> covers s a' = covers s a"
proof -
  assume k: "keys a' = keys a"
  have "DAList.lookup a' x \<noteq> None \<longleftrightarrow> DAList.lookup a x \<noteq> None" for x
    using in_keys_iff[of x a'] in_keys_iff[of x a] k by auto
  then show ?thesis by (simp add: covers_iff)
qed

lemma covers_pin: "covers s a \<Longrightarrow> covers s (DAList.update Xi [Di] a)"
  by (auto simp: covers_iff DAList.lookup_update)

lemma no_empty_domain_pin: "no_empty_domain a \<Longrightarrow> no_empty_domain (DAList.update Xi [Di] a)"
  by (auto simp: no_empty_domain_iff DAList.lookup_update split: if_splits)

text \<open>With no empty domain, on a symmetric table that the assignment covers, the search
  does not raise.\<close>

lemma backtrack_no_error:
  "covers s a \<and> symmetric_keys s \<and> no_empty_domain a \<longrightarrow>
     (\<forall>s' e. backtrack s a \<noteq> (s', Inl e))"
  "covers s a \<and> symmetric_keys s \<and> no_empty_domain a \<longrightarrow>
     (\<forall>s' e. backtrack_loop s a Xi ds \<noteq> (s', Inl e))"
proof (induction s a and s a Xi ds rule: backtrack_induct)
  case (backtrack s a)
  show ?case
  proof (intro impI allI notI)
    fix s' e
    assume h: "covers s a \<and> symmetric_keys s \<and> no_empty_domain a"
      and b: "backtrack s a = (s', Inl e)"
    have c: "counters_only s (s\<lparr>numCalls := numCalls s + 1\<rparr>)" by (simp add: counters_only_def)
    from b show False
    proof (cases rule: backtrack_cases)
      case complete
      then show ?thesis by simp
    next
      case stuck
      with select_defined[of a] h show ?thesis by auto
    next
      case (loop Xi cands)
      with backtrack.IH[OF loop(1,2,3)] h show ?thesis
        by (simp add: counters_only_covers[OF c] counters_only_symmetric_keys[OF c])
    qed
  qed
next
  case (Nil s a Xi)
  show ?case by simp
next
  case (Cons s a Xi Di rest)
  show ?case
  proof (intro impI allI notI)
    fix s' e
    assume h: "covers s a \<and> symmetric_keys s \<and> no_empty_domain a"
      and b: "backtrack_loop s a Xi (Di # rest) = (s', Inl e)"
    have reg: "\<forall>(i, j) \<in> set (get_all_arcs s). registered s i j" by (auto simp: in_get_all_arcs)
    from b show False
    proof (cases rule: backtrack_loop_cases)
      case (error e')
      from h have "covers s (DAList.update Xi [Di] a)" by (simp add: covers_pin)
      from ac3_defined[OF _ this reg] h obtain ok a' where
        "ac3_inference s (DAList.update Xi [Di] a) (get_all_arcs s) = Inr (ok, a')" by blast
      with error show ?thesis by simp
    next
      case (pruned a')
      with Cons.IH(3) h show ?thesis by blast
    next
      case (found a' res)
      then show ?thesis by simp
    next
      case (raised a' e')
      from h have "covers s (DAList.update Xi [Di] a)" by (simp add: covers_pin)
      then have c': "covers s a'" by (simp add: covers_keys[OF ac3_keys[OF raised(1)]])
      from h have "no_empty_domain (DAList.update Xi [Di] a)"
        by (simp add: no_empty_domain_pin)
      from ac3_no_empty_domain[OF raised(1) this] have n': "no_empty_domain a'" .
      from Cons.IH(1)[OF raised(1)] c' n' h have "\<forall>s' e. backtrack s a' \<noteq> (s', Inl e)"
        by simp
      with raised(2) show ?thesis by simp
    next
      case (exhausted a' s1)
      from backtrack_frame(1)[of s a'] exhausted(2) have c: "counters_only s s1" by blast
      with Cons.IH(2)[OF exhausted(1,2)] h exhausted(3) show ?thesis
        by (simp add: counters_only_covers[OF c] counters_only_symmetric_keys[OF c])
    qed
  qed
qed

text \<open>The search finds a solution where there is one, and what it returns is made of
  values of the domains.\<close>

lemma inside_pin: "inside \<sigma> a \<Longrightarrow> inside \<sigma> (DAList.update Xi [\<sigma> Xi] a)"
  by (auto simp: inside_iff DAList.lookup_update split: if_splits)

lemma backtrack_complete:
  "allows s \<sigma> \<and> covers s a \<and> symmetric_keys s \<and> inside \<sigma> a \<longrightarrow>
     (\<exists>s' asg. backtrack s a = (s', Inr (Some asg)))"
  "allows s \<sigma> \<and> covers s a \<and> symmetric_keys s \<and> inside \<sigma> a \<and> \<sigma> Xi \<in> set ds \<longrightarrow>
     (\<exists>s' asg. backtrack_loop s a Xi ds = (s', Inr (Some asg)))"
proof (induction s a and s a Xi ds rule: backtrack_induct)
  case (backtrack s a)
  show ?case
  proof (intro impI)
    assume h: "allows s \<sigma> \<and> covers s a \<and> symmetric_keys s \<and> inside \<sigma> a"
    have c: "counters_only s (s\<lparr>numCalls := numCalls s + 1\<rparr>)" by (simp add: counters_only_def)
    obtain s' r where b: "backtrack s a = (s', r)" by (cases "backtrack s a")
    from b show "\<exists>s' asg. backtrack s a = (s', Inr (Some asg))"
    proof (cases rule: backtrack_cases)
      case complete
      with b show ?thesis by simp
    next
      case stuck
      with select_defined[of a] h inside_no_empty_domain[of \<sigma> a] show ?thesis by auto
    next
      case (loop Xi cands)
      from h loop(3) have "\<sigma> Xi \<in> set cands" by (auto simp: inside_iff)
      with backtrack.IH[OF loop(1,2,3)] h
      have "\<exists>s' asg. backtrack_loop (s\<lparr>numCalls := numCalls s + 1\<rparr>) a Xi cands
              = (s', Inr (Some asg))"
        by (simp add: counters_only_covers[OF c] counters_only_symmetric_keys[OF c]
              counters_only_allows[OF c])
      with loop(4) b show ?thesis by auto
    qed
  qed
next
  case (Nil s a Xi)
  show ?case by simp
next
  case (Cons s a Xi Di rest)
  show ?case
  proof (intro impI)
    assume h: "allows s \<sigma> \<and> covers s a \<and> symmetric_keys s \<and> inside \<sigma> a \<and>
      \<sigma> Xi \<in> set (Di # rest)"
    then have al: "allows s \<sigma>" and cov: "covers s a" and sym: "symmetric_keys s"
      and ins: "inside \<sigma> a" by auto
    have reg: "\<forall>(i, j) \<in> set (get_all_arcs s). registered s i j" by (auto simp: in_get_all_arcs)
    have cov1: "covers s (DAList.update Xi [Di] a)" using cov by (simp add: covers_pin)
    have keep: "ok \<and> inside \<sigma> a'"
      if "\<sigma> Xi = Di" "ac3_inference s (DAList.update Xi [Di] a) (get_all_arcs s) = Inr (ok, a')"
      for ok a'
      using ac3_keeps_solution[OF al _ that(2)] inside_pin[OF ins, of Xi] that(1) by simp
    obtain s' r where b: "backtrack_loop s a Xi (Di # rest) = (s', r)"
      by (cases "backtrack_loop s a Xi (Di # rest)")
    from b show "\<exists>s' asg. backtrack_loop s a Xi (Di # rest) = (s', Inr (Some asg))"
    proof (cases rule: backtrack_loop_cases)
      case (error e)
      from ac3_defined[OF sym cov1 reg] error(1) show ?thesis by auto
    next
      case (pruned a')
      with keep[of False a'] have "\<sigma> Xi \<noteq> Di" by auto
      with h have "\<sigma> Xi \<in> set rest" by auto
      with Cons.IH(3)[OF pruned(1)] h pruned(2) b show ?thesis by auto
    next
      case (found a' res)
      with b show ?thesis by simp
    next
      case (raised a' e)
      have c': "covers s a'" using cov1 by (simp add: covers_keys[OF ac3_keys[OF raised(1)]])
      from inside_no_empty_domain[OF ins]
      have "no_empty_domain (DAList.update Xi [Di] a)" by (simp add: no_empty_domain_pin)
      from ac3_no_empty_domain[OF raised(1) this] have "no_empty_domain a'" .
      with backtrack_no_error(1)[of s a'] c' sym raised(2) show ?thesis by simp
    next
      case (exhausted a' s1)
      have c': "covers s a'" using cov1 by (simp add: covers_keys[OF ac3_keys[OF exhausted(1)]])
      have "\<sigma> Xi \<noteq> Di"
      proof
        assume e: "\<sigma> Xi = Di"
        from keep[OF e exhausted(1)] have "inside \<sigma> a'" by simp
        with Cons.IH(1)[OF exhausted(1)] al c' sym exhausted(2) show False by simp
      qed
      with h have m: "\<sigma> Xi \<in> set rest" by auto
      from backtrack_frame(1)[of s a'] exhausted(2) have c: "counters_only s s1" by blast
      from Cons.IH(2)[OF exhausted(1,2)] h m
      have "\<exists>s' asg. backtrack_loop s1 a Xi rest = (s', Inr (Some asg))"
        by (simp add: counters_only_covers[OF c] counters_only_symmetric_keys[OF c]
              counters_only_allows[OF c])
      with exhausted(3) b show ?thesis by auto
    qed
  qed
qed

lemma sub_assignment_pin:
  assumes "DAList.lookup a Xi = Some d" "Di \<in> set d"
  shows "sub_assignment (DAList.update Xi [Di] a) a"
  using assms keys_update_present[OF assms(1), of "[Di]"]
  by (auto simp: sub_assignment_iff DAList.lookup_update split: if_splits)

lemma backtrack_sub_assignment:
  "\<forall>s' asg. backtrack s a = (s', Inr (Some asg)) \<longrightarrow> sub_assignment asg a"
  "(\<exists>d. DAList.lookup a Xi = Some d \<and> set ds \<subseteq> set d) \<longrightarrow>
     (\<forall>s' asg. backtrack_loop s a Xi ds = (s', Inr (Some asg)) \<longrightarrow> sub_assignment asg a)"
proof (induction s a and s a Xi ds rule: backtrack_induct)
  case (backtrack s a)
  show ?case
  proof (intro allI impI)
    fix s' asg assume "backtrack s a = (s', Inr (Some asg))"
    then show "sub_assignment asg a"
    proof (cases rule: backtrack_cases)
      case complete
      then show ?thesis by (simp add: sub_assignment_refl)
    next
      case stuck
      then show ?thesis by simp
    next
      case (loop Xi cands)
      with backtrack.IH[OF loop(1,2,3)] show ?thesis by auto
    qed
  qed
next
  case (Nil s a Xi)
  show ?case by simp
next
  case (Cons s a Xi Di rest)
  show ?case
  proof (intro allI impI)
    fix s' asg
    assume d: "\<exists>d. DAList.lookup a Xi = Some d \<and> set (Di # rest) \<subseteq> set d"
      and b: "backtrack_loop s a Xi (Di # rest) = (s', Inr (Some asg))"
    from d have d': "\<exists>d. DAList.lookup a Xi = Some d \<and> set rest \<subseteq> set d" by auto
    from d have pin: "sub_assignment (DAList.update Xi [Di] a) a"
      by (auto intro: sub_assignment_pin)
    from b show "sub_assignment asg a"
    proof (cases rule: backtrack_loop_cases)
      case (error e)
      then show ?thesis by simp
    next
      case (pruned a')
      with Cons.IH(3)[OF pruned(1)] d' show ?thesis by blast
    next
      case (found a' res)
      with Cons.IH(1)[OF found(1)] have "sub_assignment asg a'" by auto
      from sub_assignment_trans[OF this ac3_sub_assignment[OF found(1)]] pin
      show ?thesis by (rule sub_assignment_trans)
    next
      case (raised a' e)
      then show ?thesis by simp
    next
      case (exhausted a' s1)
      with Cons.IH(2)[OF exhausted(1,2)] d' show ?thesis by blast
    qed
  qed
qed

lemma backtracking_search_sub_assignment:
  assumes "backtracking_search s = (s', Inr (Some asg))"
  shows "sub_assignment asg (domains s)"
proof -
  from assms obtain ok a0 where
    run: "ac3_inference s (domains s) (get_all_arcs s) = Inr (ok, a0)" and
    b: "backtrack s a0 = (s', Inr (Some asg))"
    by (auto simp: backtracking_search_def split: sum.splits)
  from backtrack_sub_assignment(1)[of s a0] b have "sub_assignment asg a0" by blast
  from this ac3_sub_assignment[OF run] show ?thesis by (rule sub_assignment_trans)
qed

lemma arc_consistent_complete_solution:
  assumes ac: "arc_consistent s a" and c: "hasCompletedThe a"
    and sub: "sub_assignment a (domains s)"
  shows "is_solution s a"
proof -
  have "case get_constraint s i j of
          Inl e \<Rightarrow> False
        | Inr ps \<Rightarrow>
            (case DAList.lookup a i of
               Some [x] \<Rightarrow> (case DAList.lookup a j of Some [y] \<Rightarrow> (x, y) \<in> set ps | _ \<Rightarrow> False)
             | _ \<Rightarrow> False)"
    if "(i, j) \<in> set (get_all_arcs s)" for i j
  proof -
    from that ac have "arc_supported s a i j"
      by (simp add: arc_consistent_iff in_get_all_arcs)
    then obtain ps Di Dj where h: "get_constraint s i j = Inr ps"
      "DAList.lookup a i = Some Di" "DAList.lookup a j = Some Dj"
      "\<forall>x \<in> set Di. \<exists>y \<in> set Dj. (x, y) \<in> set ps"
      by (auto simp: arc_supported_iff)
    from c h(2,3) have "length Di = 1" "length Dj = 1" by (auto simp: hasCompletedThe_iff)
    then obtain x y where xy: "Di = [x]" "Dj = [y]" by (cases Di; cases Dj) auto
    with h show ?thesis by simp
  qed
  with c sub show ?thesis unfolding is_solution_def list_all_iff by auto
qed

lemma search_sound:
  assumes conv: "converse_pairs s" and irr: "no_self_arcs s"
    and res: "backtracking_search s = (s', Inr (Some asg))"
  shows "is_solution s asg"
proof -
  from backtracking_search_returns[OF res] obtain b where
    c: "hasCompletedThe asg" and run: "ac3_inference s b (get_all_arcs s) = Inr (True, asg)"
    by (auto simp: ac3_result_def)
  from ac3_arc_consistent[OF conv irr run ac3_inv_all_arcs] c
    backtracking_search_sub_assignment[OF res]
  show ?thesis by (rule arc_consistent_complete_solution)
qed

lemma search_complete:
  assumes b: "built s" and conv: "converse_pairs s" and sat: "satisfiable s"
  shows "\<exists>s' asg. backtracking_search s = (s', Inr (Some asg))"
proof -
  from sat obtain \<sigma> where "solves s \<sigma>" by (auto simp: satisfiable_def)
  then have ins: "inside \<sigma> (domains s)" and al: "allows s \<sigma>"
    by (auto simp: solves_iff allows_def)
  have sym: "symmetric_keys s" by (rule converse_pairs_symmetric[OF conv])
  have cov: "covers s (domains s)" by (rule built_covers[OF b])
  have reg: "\<forall>(i, j) \<in> set (get_all_arcs s). registered s i j" by (auto simp: in_get_all_arcs)
  from ac3_defined[OF sym cov reg] obtain ok a0 where
    run: "ac3_inference s (domains s) (get_all_arcs s) = Inr (ok, a0)" by blast
  from ac3_keeps_solution[OF al ins run] have ins0: "inside \<sigma> a0" by simp
  have cov0: "covers s a0" using cov by (simp add: covers_keys[OF ac3_keys[OF run]])
  from backtrack_complete(1)[of s \<sigma> a0] al cov0 sym ins0 obtain s' asg where
    "backtrack s a0 = (s', Inr (Some asg))" by blast
  with run show ?thesis by (simp add: backtracking_search_def)
qed

lemma built_result_one_way: "built s \<Longrightarrow> built_result (add_constraint_one_way i j f s)"
  by (auto simp: built_result_def split: sum.splits intro: built.one_way)

lemma built_result_all_different:
  "built s \<Longrightarrow> built_result (add_all_different_constraint var_list s)"
  by (auto simp: built_result_def split: sum.splits intro: built.all_different)

lemma built_result_and_then:
  assumes r: "built_result r" and f: "\<And>s. built s \<Longrightarrow> built_result (f s)"
  shows "built_result (and_then r f)"
proof (cases r)
  case (Inl e)
  then show ?thesis by (simp add: built_result_def and_then_def)
next
  case (Inr s)
  with r have "built s" by (simp add: built_result_def)
  from f[OF this] Inr show ?thesis by (simp add: and_then_def)
qed

lemma built_the_solver: "built_result r \<Longrightarrow> built (the_solver r)"
  by (auto simp: built_result_def the_solver_def split: sum.splits intro: built.init)

lemmas built_intros =
  built.init built.variable built_the_solver built_result_and_then built_result_one_way
  built_result_all_different

lemma built_examples:
  "built one_way_three" "built self_arc_sat" "built not_converse_sat" "built all_diff_two"
  unfolding one_way_three_def self_arc_sat_def not_converse_sat_def all_diff_two_def
  by (auto intro!: built_intros)

lemma satisfiable_examples:
  "satisfiable one_way_three" "satisfiable self_arc_sat" "satisfiable not_converse_sat"
  "satisfiable all_diff_two"
proof -
  have "solves one_way_three (\<lambda>k. if k = ''A'' then 2 else 1)" by code_simp
  then show "satisfiable one_way_three" unfolding satisfiable_def by blast
  have "solves self_arc_sat (\<lambda>k. if k = ''A'' then 3 else 2)" by code_simp
  then show "satisfiable self_arc_sat" unfolding satisfiable_def by blast
  have "solves not_converse_sat (\<lambda>k. 2)" by code_simp
  then show "satisfiable not_converse_sat" unfolding satisfiable_def by blast
  have "solves all_diff_two (\<lambda>k. if k = ''A'' then 1 else 2)" by code_simp
  then show "satisfiable all_diff_two" unfolding satisfiable_def by blast
qed

lemma failing_searches:
  "snd (backtracking_search one_way_three) = Inl KeyError \<and>
   returns_non_solution self_arc_sat \<and> returns_non_solution not_converse_sat"
  by code_simp

text \<open>
  Claim C1, as stated, fails on satisfiable problems built with the three methods. On
  \<open>one_way_three\<close> the constraints are registered in one direction only, and the first
  run of AC-3 raises \<open>KeyError\<close> when it looks up the constraint of an arc it enqueued.
  On \<open>self_arc_sat\<close> the variable \<open>A\<close> has a constraint with itself, and on
  \<open>not_converse_sat\<close> the two directions between \<open>A\<close> and \<open>B\<close> hold different
  relations: on both, the search returns an assignment that violates a registered
  constraint.
\<close>

theorem search_fails_on_satisfiable:
  "built one_way_three \<and> satisfiable one_way_three \<and>
   snd (backtracking_search one_way_three) = Inl KeyError \<and>
   built self_arc_sat \<and> satisfiable self_arc_sat \<and> returns_non_solution self_arc_sat \<and>
   built not_converse_sat \<and> satisfiable not_converse_sat \<and>
   returns_non_solution not_converse_sat"
  using built_examples satisfiable_examples failing_searches by simp

text \<open>
  Claim C1, amended. Take a solver built with \<open>add_variable\<close>,
  \<open>add_constraint_one_way\<close> and \<open>add_all_different_constraint\<close> whose table holds, for
  every registered arc \<open>(i, j)\<close>, the reversed pairs for the arc \<open>(j, i)\<close>, and has no
  arc from a variable to itself. If the problem is satisfiable, \<open>backtracking_search\<close>
  returns an assignment, and that assignment is a solution: every domain is a single
  value of the variable's domain in the solver, and for every registered arc the pair of
  the two values is among the stored pairs. On such a table every assignment that
  \<open>backtracking_search\<close> returns is a solution, satisfiable or not, however the solver
  was built.
\<close>

theorem search_finds_solution:
  "(built s \<and> converse_pairs s \<and> no_self_arcs s \<and> satisfiable s \<longrightarrow>
      (\<exists>s' asg. backtracking_search s = (s', Inr (Some asg)) \<and> is_solution s asg)) \<and>
   (converse_pairs s \<and> no_self_arcs s \<and> backtracking_search s = (s1, Inr (Some a1)) \<longrightarrow>
      is_solution s a1)"
  using search_complete[of s] search_sound[of s] by blast

theorem search_finds_solution_witness:
  "built all_diff_two \<and> converse_pairs all_diff_two \<and> no_self_arcs all_diff_two \<and>
   satisfiable all_diff_two \<and>
   (\<exists>s' asg. backtracking_search all_diff_two = (s', Inr (Some asg)) \<and>
      is_solution all_diff_two asg \<and>
      DAList.lookup asg ''A'' = Some [1] \<and> DAList.lookup asg ''B'' = Some [2])"
proof -
  have w: "converse_pairs all_diff_two \<and> no_self_arcs all_diff_two" by code_simp
  have "case backtracking_search all_diff_two of
          (s', Inr (Some asg)) \<Rightarrow>
             DAList.lookup asg ''A'' = Some [1] \<and> DAList.lookup asg ''B'' = Some [2]
        | _ \<Rightarrow> False"
    by code_simp
  then obtain s' asg where r: "backtracking_search all_diff_two = (s', Inr (Some asg))"
    "DAList.lookup asg ''A'' = Some [1]" "DAList.lookup asg ''B'' = Some [2]"
    by (auto split: prod.splits sum.splits option.splits)
  from search_finds_solution[of all_diff_two s' asg] w r(1) built_examples(4)
    satisfiable_examples(4)
  have "is_solution all_diff_two asg" by simp
  with w r built_examples(4) satisfiable_examples(4) show ?thesis by blast
qed

subsection \<open>Where backtrack raises\<close>

lemma has_empty_domain_incomplete: "has_empty_domain a \<Longrightarrow> \<not> hasCompletedThe a"
  by (force simp: has_empty_domain_def list_ex_iff hasCompletedThe_def hasCompleted_items_iff)

lemma nothing_selectable_iff:
  "\<not> hasCompletedThe a \<and> selectUnassignedVariableFrom a = None \<longleftrightarrow>
   has_empty_domain a \<and> undecided a = 0"
proof
  assume h: "\<not> hasCompletedThe a \<and> selectUnassignedVariableFrom a = None"
  then have u: "undecided a = 0"
    by (simp add: selectUnassignedVariableFrom_def select_items_None_iff undecided_0_iff)
  from h obtain k d where kd: "(k, d) \<in> set (DAList.impl_of a)" "length d \<noteq> 1"
    by (auto simp: hasCompletedThe_def hasCompleted_items_iff)
  from u kd(1) have "length d \<le> 1" by (force simp: undecided_0_iff)
  with kd(2) have "d = []" by (cases d) auto
  with kd(1) have "has_empty_domain a" by (force simp: has_empty_domain_def list_ex_iff)
  with u show "has_empty_domain a \<and> undecided a = 0" by simp
next
  assume h: "has_empty_domain a \<and> undecided a = 0"
  with backtrack_stuck(1)[of a] has_empty_domain_incomplete[of a]
  show "\<not> hasCompletedThe a \<and> selectUnassignedVariableFrom a = None" by simp
qed

lemma backtrack_total:
  assumes "covers s a" "symmetric_keys s" "no_empty_domain a"
  shows "\<exists>s' r. backtrack s a = (s', Inr r)"
proof -
  obtain s' r where b: "backtrack s a = (s', r)" by (cases "backtrack s a")
  show ?thesis
  proof (cases r)
    case (Inl e)
    with b backtrack_no_error(1)[of s a] assms show ?thesis by simp
  next
    case (Inr x)
    with b show ?thesis by simp
  qed
qed

text \<open>
  Claim C5, as stated, fails: \<open>backtrack\<close> also returns when a domain is empty. On the
  all-different table of \<open>A\<close> and \<open>B\<close> with the assignment \<open>A: []\<close>, \<open>B: [1, 2]\<close> it
  selects \<open>B\<close>, AC-3 rejects both values, and it returns "no solution". The same
  happens from \<open>backtracking_search\<close>: on \<open>all_diff_ones_free\<close> the first AC-3 returns
  \<open>False\<close> with \<open>B\<close> emptied, and the search returns "no solution", the free variable
  \<open>C\<close> being selected. Nor are non-empty domains enough on a table with constraints in
  one direction only: on \<open>one_way_fan\<close> every domain is non-empty and \<open>backtrack\<close>
  raises \<open>KeyError\<close> from AC-3.
\<close>

theorem backtrack_returns_with_empty_domain:
  "has_empty_domain empty_and_undecided \<and> covers all_diff_two empty_and_undecided \<and>
   symmetric_keys all_diff_two \<and>
   snd (backtrack all_diff_two empty_and_undecided) = Inr None \<and>
   (\<exists>a0. ac3_inference all_diff_ones_free (domains all_diff_ones_free)
            (get_all_arcs all_diff_ones_free) = Inr (False, a0) \<and>
         has_empty_domain a0) \<and>
   snd (backtracking_search all_diff_ones_free) = Inr None \<and>
   no_empty_domain (domains one_way_fan) \<and>
   snd (backtrack one_way_fan (domains one_way_fan)) = Inl KeyError"
proof -
  have 1: "has_empty_domain empty_and_undecided \<and> covers all_diff_two empty_and_undecided \<and>
      symmetric_keys all_diff_two \<and>
      snd (backtrack all_diff_two empty_and_undecided) = Inr None"
    by code_simp
  have "case ac3_inference all_diff_ones_free (domains all_diff_ones_free)
               (get_all_arcs all_diff_ones_free) of
          Inl e \<Rightarrow> False
        | Inr (ok, a0) \<Rightarrow> \<not> ok \<and> has_empty_domain a0"
    by code_simp
  then have 2: "\<exists>a0. ac3_inference all_diff_ones_free (domains all_diff_ones_free)
            (get_all_arcs all_diff_ones_free) = Inr (False, a0) \<and> has_empty_domain a0"
    by (auto split: sum.splits)
  have 3: "snd (backtracking_search all_diff_ones_free) = Inr None \<and>
      no_empty_domain (domains one_way_fan) \<and>
      snd (backtrack one_way_fan (domains one_way_fan)) = Inl KeyError"
    by code_simp
  from 1 2 3 show ?thesis by blast
qed

text \<open>
  Claim C5, amended. On a table where every registered arc has its reverse registered,
  with an assignment that holds a domain for every variable of an arc, \<open>backtrack\<close>
  returns without raising whenever no domain of its assignment is empty. If the
  assignment is incomplete and no domain is empty, \<open>selectUnassignedVariableFrom\<close>
  returns a variable whose domain has more than one value, so the lookup of \<open>backtrack\<close>
  is defined. The selection is \<open>None\<close> on an incomplete assignment exactly when a domain
  is empty and no domain has more than one value; \<open>backtrack\<close> then raises \<open>KeyError\<close>
  right after counting the call. Such an assignment reaches \<open>backtrack\<close> from
  \<open>backtracking_search\<close>: on two variables of domain \<open>[1]\<close> that must differ, the first
  AC-3 returns \<open>False\<close> with an emptied domain, the flag is dropped, and the search
  raises.
\<close>

theorem backtrack_total_on_nonempty_domains:
  "(covers s a \<and> symmetric_keys s \<and> no_empty_domain a \<longrightarrow>
      (\<exists>s' r. backtrack s a = (s', Inr r))) \<and>
   (\<not> hasCompletedThe a \<and> no_empty_domain a \<longrightarrow>
      (\<exists>Xi d. selectUnassignedVariableFrom a = Some Xi \<and> DAList.lookup a Xi = Some d \<and>
         1 < length d)) \<and>
   ((\<not> hasCompletedThe a \<and> selectUnassignedVariableFrom a = None)
      = (has_empty_domain a \<and> undecided a = 0)) \<and>
   (has_empty_domain a \<and> undecided a = 0 \<longrightarrow>
      backtrack s a = (s\<lparr>numCalls := numCalls s + 1\<rparr>, Inl KeyError)) \<and>
   (\<exists>a0. ac3_inference all_diff_ones (domains all_diff_ones) (get_all_arcs all_diff_ones)
            = Inr (False, a0) \<and>
         has_empty_domain a0 \<and> undecided a0 = 0 \<and>
         snd (backtracking_search all_diff_ones) = Inl KeyError)"
proof -
  have 1: "covers s a \<and> symmetric_keys s \<and> no_empty_domain a \<longrightarrow>
      (\<exists>s' r. backtrack s a = (s', Inr r))"
    using backtrack_total[of s a] by simp
  have 2: "\<not> hasCompletedThe a \<and> no_empty_domain a \<longrightarrow>
      (\<exists>Xi d. selectUnassignedVariableFrom a = Some Xi \<and> DAList.lookup a Xi = Some d \<and>
         1 < length d)"
    using select_defined[of a] by simp
  have 4: "has_empty_domain a \<and> undecided a = 0 \<longrightarrow>
      backtrack s a = (s\<lparr>numCalls := numCalls s + 1\<rparr>, Inl KeyError)"
    using backtrack_stuck(2)[of a s] by simp
  have 5: "\<exists>a0. ac3_inference all_diff_ones (domains all_diff_ones) (get_all_arcs all_diff_ones)
            = Inr (False, a0) \<and>
         has_empty_domain a0 \<and> undecided a0 = 0 \<and>
         snd (backtracking_search all_diff_ones) = Inl KeyError"
    using all_diff_ones_stuck all_diff_ones_search by auto
  from 1 2 nothing_selectable_iff[of a] 4 5 show ?thesis by blast
qed

theorem backtrack_total_on_nonempty_domains_witness:
  "covers all_diff_two undecided_example \<and> symmetric_keys all_diff_two \<and>
   no_empty_domain undecided_example \<and> \<not> hasCompletedThe undecided_example \<and>
   (\<exists>s' r. backtrack all_diff_two undecided_example = (s', Inr r)) \<and>
   selectUnassignedVariableFrom undecided_example = Some ''A'' \<and>
   DAList.lookup undecided_example ''A'' = Some [1, 2] \<and>
   has_empty_domain emptied_example \<and> undecided emptied_example = 0 \<and>
   \<not> hasCompletedThe emptied_example \<and>
   selectUnassignedVariableFrom emptied_example = None \<and>
   snd (backtrack all_diff_ones emptied_example) = Inl KeyError"
proof -
  have h1: "covers all_diff_two undecided_example \<and> symmetric_keys all_diff_two \<and>
      no_empty_domain undecided_example \<and> \<not> hasCompletedThe undecided_example"
    by code_simp
  have e: "selectUnassignedVariableFrom undecided_example = Some ''A'' \<and>
      DAList.lookup undecided_example ''A'' = Some [1, 2]"
    by code_simp
  have h2: "has_empty_domain emptied_example \<and> undecided emptied_example = 0"
    by code_simp
  from backtrack_total_on_nonempty_domains[of all_diff_two undecided_example] h1
  have 1: "\<exists>s' r. backtrack all_diff_two undecided_example = (s', Inr r)" by blast
  from backtrack_total_on_nonempty_domains[of all_diff_ones emptied_example] h2
  have 2: "\<not> hasCompletedThe emptied_example \<and>
      selectUnassignedVariableFrom emptied_example = None \<and>
      snd (backtrack all_diff_ones emptied_example) = Inl KeyError"
    by simp
  from h1 e h2 1 2 show ?thesis by blast
qed

subsection \<open>The writes to the counters\<close>

lemma backtrack_writes_unfold:
  "backtrack_writes s a =
     counters (s\<lparr>numCalls := numCalls s + 1\<rparr>) #
     (if hasCompletedThe a then []
      else
        (case selectUnassignedVariableFrom a of
           None \<Rightarrow> []
         | Some Xi \<Rightarrow>
             (case DAList.lookup a Xi of
                None \<Rightarrow> []
              | Some candidates \<Rightarrow>
                  backtrack_loop_writes (s\<lparr>numCalls := numCalls s + 1\<rparr>) a Xi candidates)))"
  by (simp add: backtrack_writes.simps Let_def)

lemma backtrack_loop_writes_Cons:
  "backtrack_loop_writes s a Xi (Di # rest) =
     (case ac3_inference s (DAList.update Xi [Di] a) (get_all_arcs s) of
        Inl e \<Rightarrow> []
      | Inr (ok, a') \<Rightarrow>
          if ok then
            backtrack_writes s a' @
            (case backtrack s a' of
               (s', Inl e) \<Rightarrow> []
             | (s', Inr (Some result)) \<Rightarrow> []
             | (s', Inr None) \<Rightarrow> backtrack_loop_writes s' a Xi rest)
          else backtrack_loop_writes s a Xi rest)"
  by (simp add: backtrack_loop_writes.simps(2) isConsistent_def Let_def)

lemma steps_by_one_Cons:
  "steps_by_one (c # t) \<longleftrightarrow> (t = [] \<or> ((call_step c (hd t) \<or> failure_step c (hd t)) \<and> steps_by_one t))"
  by (cases t) auto

lemma steps_by_one_append:
  "t \<noteq> [] \<Longrightarrow> steps_by_one (t @ u) \<longleftrightarrow> steps_by_one t \<and> steps_by_one (last t # u)"
proof (induction t rule: steps_by_one.induct)
  case (1 c d rest)
  then show ?case by simp
next
  case (2 c)
  then show ?case by simp
next
  case 3
  then show ?case by simp
qed

lemma count_steps_append:
  "t \<noteq> [] \<Longrightarrow> count_steps step (t @ u) = count_steps step t + count_steps step (last t # u)"
  by (induction step t rule: count_steps.induct) simp_all

lemma last_step_is_append:
  "t \<noteq> [] \<Longrightarrow> u \<noteq> [] \<Longrightarrow> last_step_is step (t @ u) = last_step_is step (last t # u)"
  by (cases u rule: rev_cases) (auto simp: last_step_is_def butlast_append Suc_le_eq)

lemma last_append_Cons: "t \<noteq> [] \<Longrightarrow> last (t @ u) = last (last t # u)"
  by (cases u rule: rev_cases) auto

lemma backtrack_writes_trace:
  "steps_by_one (counters s # backtrack_writes s a) \<and>
   last (counters s # backtrack_writes s a) = counters (fst (backtrack s a)) \<and>
   (snd (backtrack s a) = Inr None \<longrightarrow>
      last_step_is failure_step (counters s # backtrack_writes s a)) \<and>
   ((\<exists>res. snd (backtrack s a) = Inr (Some res)) \<longrightarrow>
      last_step_is call_step (counters s # backtrack_writes s a))"
  "steps_by_one (counters s # backtrack_loop_writes s a Xi ds) \<and>
   last (counters s # backtrack_loop_writes s a Xi ds)
     = counters (fst (backtrack_loop s a Xi ds)) \<and>
   (snd (backtrack_loop s a Xi ds) = Inr None \<longrightarrow>
      last_step_is failure_step (counters s # backtrack_loop_writes s a Xi ds)) \<and>
   ((\<exists>res. snd (backtrack_loop s a Xi ds) = Inr (Some res)) \<longrightarrow>
      last_step_is call_step (counters s # backtrack_loop_writes s a Xi ds))"
proof (induction s a and s a Xi ds rule: backtrack_induct)
  case (backtrack s a)
  let ?s1 = "s\<lparr>numCalls := numCalls s + 1\<rparr>"
  have step: "call_step (counters s) (counters ?s1)"
    by (simp add: call_step_def counters_def)
  show ?case
  proof (cases "hasCompletedThe a")
    case True
    with step show ?thesis
      by (simp add: backtrack_unfold backtrack_writes_unfold last_step_is_def)
  next
    case nc: False
    show ?thesis
    proof (cases "selectUnassignedVariableFrom a")
      case None
      with nc step show ?thesis by (simp add: backtrack_unfold backtrack_writes_unfold)
    next
      case (Some Xi)
      show ?thesis
      proof (cases "DAList.lookup a Xi")
        case None
        with nc Some step show ?thesis by (simp add: backtrack_unfold backtrack_writes_unfold)
      next
        case (Some cands) 
        note sel = \<open>selectUnassignedVariableFrom a = Some Xi\<close>
        have b: "backtrack s a = backtrack_loop ?s1 a Xi cands"
          using nc sel Some by (simp add: backtrack_unfold)
        have w: "backtrack_writes s a = counters ?s1 # backtrack_loop_writes ?s1 a Xi cands"
          using nc sel Some by (simp add: backtrack_writes_unfold)
        have l: "last_step_is st (counters s # counters ?s1 # t)
                   = last_step_is st (counters ?s1 # t)" if "last_step_is st (counters ?s1 # t)"
          for st t
          using that by (cases t rule: rev_cases) (auto simp: last_step_is_def butlast_append)
        from backtrack.IH[OF nc sel Some] step l show ?thesis
          unfolding b w by auto
      qed
    qed
  qed
next
  case (Nil s a Xi)
  show ?case by (simp add: failure_step_def counters_def last_step_is_def)
next
  case (Cons s a Xi Di rest)
  show ?case
  proof (cases "ac3_inference s (DAList.update Xi [Di] a) (get_all_arcs s)")
    case (Inl e)
    then show ?thesis by (simp add: backtrack_loop_Cons backtrack_loop_writes_Cons)
  next
    case (Inr p)
    obtain ok a' where p: "p = (ok, a')" by (cases p)
    show ?thesis
    proof (cases ok)
      case False
      with Inr p Cons.IH(3)[of a'] show ?thesis
        by (simp add: backtrack_loop_Cons backtrack_loop_writes_Cons)
    next
      case True
      with Inr p have run: "ac3_inference s (DAList.update Xi [Di] a) (get_all_arcs s)
          = Inr (True, a')" by simp
      obtain s1 r where b: "backtrack s a' = (s1, r)" by (cases "backtrack s a'")
      note ih1 = Cons.IH(1)[OF run]
      show ?thesis
      proof (cases "r = Inr None")
        case False
        then have "(\<exists>e. r = Inl e) \<or> (\<exists>res. r = Inr (Some res))"
          by (cases r) auto
        with run b ih1 show ?thesis
          by (auto simp: backtrack_loop_Cons backtrack_loop_writes_Cons)
      next
        case True
        with b have b': "backtrack s a' = (s1, Inr None)" by simp
        note ih2 = Cons.IH(2)[OF run b']
        have bl: "backtrack_loop s a Xi (Di # rest) = backtrack_loop s1 a Xi rest"
          using run b' by (simp add: backtrack_loop_Cons)
        have w: "counters s # backtrack_loop_writes s a Xi (Di # rest)
                 = (counters s # backtrack_writes s a') @ backtrack_loop_writes s1 a Xi rest"
          using run b' by (simp add: backtrack_loop_writes_Cons)
        have l1: "last (counters s # backtrack_writes s a') = counters s1"
          using ih1 b' by simp
        have 1: "steps_by_one ((counters s # backtrack_writes s a') @ backtrack_loop_writes s1 a Xi rest)"
          using ih1 ih2 l1 by (simp add: steps_by_one_append del: append_Cons)
        have 2: "last ((counters s # backtrack_writes s a') @ backtrack_loop_writes s1 a Xi rest)
                 = counters (fst (backtrack_loop s1 a Xi rest))"
          using ih2 l1 last_append_Cons[of "counters s # backtrack_writes s a'"] by simp
        have 3: "last_step_is st ((counters s # backtrack_writes s a') @ backtrack_loop_writes s1 a Xi rest)"
          if "last_step_is st (counters s1 # backtrack_loop_writes s1 a Xi rest)" for st
        proof -
          from that have "backtrack_loop_writes s1 a Xi rest \<noteq> []"
            by (auto simp: last_step_is_def)
          from last_step_is_append[OF _ this, of "counters s # backtrack_writes s a'" st] that l1
          show ?thesis by simp
        qed
        from 1 2 3 ih2 show ?thesis unfolding bl w by blast
      qed
    qed
  qed
qed

lemma steps_by_one_sorted:
  "steps_by_one t \<Longrightarrow> sorted (map fst t) \<and> sorted (map snd t)"
proof (induction t rule: steps_by_one.induct)
  case (1 c d rest)
  then have "fst c \<le> fst d" "snd c \<le> snd d"
    by (auto simp: call_step_def failure_step_def)
  with 1 show ?case by (simp del: sorted_wrt.simps add: sorted2)
next
  case (2 c)
  show ?case by simp
next
  case 3
  show ?case by simp
qed

lemma steps_by_one_count:
  "steps_by_one (c # t) \<Longrightarrow>
   fst (last (c # t)) = fst c + count_steps call_step (c # t) \<and>
   snd (last (c # t)) = snd c + count_steps failure_step (c # t)"
proof (induction t arbitrary: c)
  case Nil
  show ?case by simp
next
  case (Cons d t)
  from Cons.prems have s: "call_step c d \<or> failure_step c d" and r: "steps_by_one (d # t)"
    by simp_all
  from s have "(call_step c d \<and> \<not> failure_step c d \<and> fst d = fst c + 1 \<and> snd d = snd c) \<or>
      (failure_step c d \<and> \<not> call_step c d \<and> fst d = fst c \<and> snd d = snd c + 1)"
    by (auto simp: call_step_def failure_step_def)
  with Cons.IH[OF r] show ?case by auto
qed

lemma steps_by_one_nonneg:
  assumes "steps_by_one (c # t)" "0 \<le> fst c" "0 \<le> snd c"
  shows "list_all (\<lambda>d. 0 \<le> fst d \<and> 0 \<le> snd d) (c # t)"
proof -
  from steps_by_one_sorted[OF assms(1)]
  have "\<forall>d \<in> set t. fst c \<le> fst d" "\<forall>d \<in> set t. snd c \<le> snd d" by auto
  with assms(2,3) show ?thesis by (auto simp: list_all_iff)
qed

lemma backtracking_search_writes_trace:
  "steps_by_one (backtracking_search_trace s) \<and>
   last (backtracking_search_trace s) = counters (fst (backtracking_search s)) \<and>
   (snd (backtracking_search s) = Inr None \<longrightarrow>
      last_step_is failure_step (backtracking_search_trace s)) \<and>
   ((\<exists>res. snd (backtracking_search s) = Inr (Some res)) \<longrightarrow>
      last_step_is call_step (backtracking_search_trace s))"
proof (cases "ac3_inference s (domains s) (get_all_arcs s)")
  case (Inl e)
  then show ?thesis
    by (simp add: backtracking_search_trace_def backtracking_search_writes_def
          backtracking_search_def)
next
  case (Inr p)
  obtain ok a0 where "p = (ok, a0)" by (cases p)
  with Inr have "backtracking_search s = backtrack s a0"
    "backtracking_search_trace s = counters s # backtrack_writes s a0"
    by (simp_all add: backtracking_search_trace_def backtracking_search_writes_def
          backtracking_search_def)
  with backtrack_writes_trace(1)[of s a0] show ?thesis by simp
qed

text \<open>
  Claim C10. List the counters before a call of \<open>backtrack\<close> and after each write that
  the call and the calls nested in it make. Every step of the list adds exactly one to
  one counter and leaves the other: nothing is ever lowered or reset, whether the call
  returns a solution, returns "no solution" or raises. The first step, on entry, adds
  one to \<open>numCalls\<close>; the end of the loop adds one to \<open>numFailures\<close>, and that is the
  last step of a call that returns "no solution", while the last step of a call that
  returns a solution is the entry of the call that found the assignment complete. The
  list ends with the counters of the solver that the call returns. The same holds for
  \<open>backtracking_search\<close>, whose own code writes no counter: both counters are
  non-decreasing along the list and non-negative if they start so (a new solver has both
  at 0), and they end at their start plus the number of steps of their kind.
\<close>

theorem counters_step_by_one:
  "steps_by_one (backtrack_trace s a) \<and>
   call_step (counters s) (hd (backtrack_writes s a)) \<and>
   last (backtrack_trace s a) = counters (fst (backtrack s a)) \<and>
   (snd (backtrack s a) = Inr None \<longrightarrow> last_step_is failure_step (backtrack_trace s a)) \<and>
   ((\<exists>res. snd (backtrack s a) = Inr (Some res)) \<longrightarrow>
      last_step_is call_step (backtrack_trace s a)) \<and>
   backtrack_loop_writes s a Xi [] = [(numCalls s, numFailures s + 1)] \<and>
   steps_by_one (backtracking_search_trace s) \<and>
   last (backtracking_search_trace s) = counters (fst (backtracking_search s)) \<and>
   sorted (map fst (backtracking_search_trace s)) \<and>
   sorted (map snd (backtracking_search_trace s)) \<and>
   (0 \<le> numCalls s \<and> 0 \<le> numFailures s \<longrightarrow>
      list_all (\<lambda>c. 0 \<le> fst c \<and> 0 \<le> snd c) (backtracking_search_trace s)) \<and>
   numCalls (fst (backtracking_search s))
     = numCalls s + count_steps call_step (backtracking_search_trace s) \<and>
   numFailures (fst (backtracking_search s))
     = numFailures s + count_steps failure_step (backtracking_search_trace s) \<and>
   (snd (backtracking_search s) = Inr None \<longrightarrow>
      last_step_is failure_step (backtracking_search_trace s)) \<and>
   ((\<exists>res. snd (backtracking_search s) = Inr (Some res)) \<longrightarrow>
      last_step_is call_step (backtracking_search_trace s)) \<and>
   counters (Solver_init :: 'v solver) = (0, 0)"
proof -
  note b = backtrack_writes_trace(1)[of s a, folded backtrack_trace_def]
  note t = backtracking_search_writes_trace[of s]
  have h: "call_step (counters s) (hd (backtrack_writes s a))"
    by (simp add: backtrack_writes_unfold call_step_def counters_def)
  have l: "backtrack_loop_writes s a Xi [] = [(numCalls s, numFailures s + 1)]"
    by (simp add: counters_def)
  from t have st: "steps_by_one (counters s # backtracking_search_writes s)"
    by (simp add: backtracking_search_trace_def)
  have so: "sorted (map fst (backtracking_search_trace s)) \<and>
      sorted (map snd (backtracking_search_trace s))"
    using t steps_by_one_sorted[of "backtracking_search_trace s"] by simp
  have nn: "0 \<le> numCalls s \<and> 0 \<le> numFailures s \<longrightarrow>
      list_all (\<lambda>c. 0 \<le> fst c \<and> 0 \<le> snd c) (backtracking_search_trace s)"
    using steps_by_one_nonneg[OF st]
    by (simp add: backtracking_search_trace_def counters_def)
  have cnt: "numCalls (fst (backtracking_search s))
        = numCalls s + count_steps call_step (backtracking_search_trace s) \<and>
      numFailures (fst (backtracking_search s))
        = numFailures s + count_steps failure_step (backtracking_search_trace s)"
    using steps_by_one_count[OF st] t
    by (simp add: backtracking_search_trace_def counters_def)
  have i: "counters (Solver_init :: 'v solver) = (0, 0)"
    by (simp add: counters_def Solver_init_def)
  from b h l t so nn cnt i show ?thesis by blast
qed

theorem counters_step_by_one_witness:
  "backtracking_search_trace rescue = [(0, 0), (1, 0), (2, 0), (2, 1), (3, 1), (4, 1)] \<and>
   (\<exists>res. snd (backtracking_search rescue) = Inr (Some res)) \<and>
   steps_by_one (backtracking_search_trace rescue) \<and>
   last_step_is call_step (backtracking_search_trace rescue) \<and>
   counters (fst (backtracking_search rescue)) = (4, 1) \<and>
   count_steps call_step (backtracking_search_trace rescue) = 4 \<and>
   count_steps failure_step (backtracking_search_trace rescue) = 1 \<and>
   backtrack_trace three_clique (domains three_clique) = [(0, 0), (1, 0), (1, 1)] \<and>
   backtracking_search_trace three_clique = [(0, 0), (1, 0), (1, 1)] \<and>
   snd (backtrack three_clique (domains three_clique)) = Inr None \<and>
   snd (backtracking_search three_clique) = Inr None \<and>
   last_step_is failure_step (backtrack_trace three_clique (domains three_clique)) \<and>
   last_step_is failure_step (backtracking_search_trace three_clique) \<and>
   list_all (\<lambda>c. 0 \<le> fst c \<and> 0 \<le> snd c) (backtracking_search_trace three_clique) \<and>
   counters (fst (backtracking_search three_clique)) = (1, 1)"
proof -
  have r: "backtracking_search_trace rescue = [(0, 0), (1, 0), (2, 0), (2, 1), (3, 1), (4, 1)]"
    by code_simp
  have "case snd (backtracking_search rescue) of Inr (Some res) \<Rightarrow> True | _ \<Rightarrow> False"
    by code_simp
  then have rs: "\<exists>res. snd (backtracking_search rescue) = Inr (Some res)"
    by (auto split: sum.splits option.splits)
  have n: "numCalls rescue = 0 \<and> numFailures rescue = 0" by code_simp
  have c: "backtrack_trace three_clique (domains three_clique) = [(0, 0), (1, 0), (1, 1)] \<and>
      backtracking_search_trace three_clique = [(0, 0), (1, 0), (1, 1)] \<and>
      snd (backtrack three_clique (domains three_clique)) = Inr None \<and>
      snd (backtracking_search three_clique) = Inr None"
    by code_simp
  have z: "0 \<le> numCalls three_clique \<and> 0 \<le> numFailures three_clique" by code_simp
  note R = counters_step_by_one[of rescue "domains rescue" "''X''"]
  note C = counters_step_by_one[of three_clique "domains three_clique" "''A''"]
  from R rs have 1: "steps_by_one (backtracking_search_trace rescue) \<and>
      last_step_is call_step (backtracking_search_trace rescue)"
    by blast
  from R have "last (backtracking_search_trace rescue) = counters (fst (backtracking_search rescue))"
    by blast
  then have 2: "counters (fst (backtracking_search rescue)) = (4, 1)" by (simp add: r)
  then have "numCalls (fst (backtracking_search rescue)) = 4 \<and>
      numFailures (fst (backtracking_search rescue)) = 1"
    by (simp add: counters_def)
  moreover from R have "numCalls (fst (backtracking_search rescue))
        = numCalls rescue + count_steps call_step (backtracking_search_trace rescue) \<and>
      numFailures (fst (backtracking_search rescue))
        = numFailures rescue + count_steps failure_step (backtracking_search_trace rescue)"
    by blast
  ultimately have 3: "count_steps call_step (backtracking_search_trace rescue) = 4 \<and>
      count_steps failure_step (backtracking_search_trace rescue) = 1"
    using n by simp
  from C c z have 4: "last_step_is failure_step (backtrack_trace three_clique (domains three_clique)) \<and>
      last_step_is failure_step (backtracking_search_trace three_clique) \<and>
      list_all (\<lambda>c. 0 \<le> fst c \<and> 0 \<le> snd c) (backtracking_search_trace three_clique)"
    by blast
  from C have "last (backtracking_search_trace three_clique)
      = counters (fst (backtracking_search three_clique))"
    by blast
  then have 5: "counters (fst (backtracking_search three_clique)) = (1, 1)" using c by simp
  from r rs c 1 2 3 4 5 show ?thesis by blast
qed

end
